theory Spec2Isabelle
  imports Main "HOL-Library.Word"
begin

unbundle bit_operations_syntax

section \<open>Data model\<close>

text \<open>
  The sources are the OpenMP variants of the counter-mode transform of tiny-AES-c:
  \<^verbatim>\<open>aes_openmp.c\<close>, \<^verbatim>\<open>aes_openmp_shared_ctx.c\<close>, \<^verbatim>\<open>aes_openmp_false_sharing.c\<close> and
  \<^verbatim>\<open>aes_openmp_nowait.c\<close>. Bytes are \<open>uint8_t\<close>, sizes are \<open>size_t\<close> (64 bits, the
  LP64 target the benchmark is built for).
\<close>

type_synonym byte = "8 word"
type_synonym size_t = "64 word"

text \<open>\<^verbatim>\<open>struct AES_ctx\<close>: the expanded key and the 16-byte counter block.\<close>

record AES_ctx =
  RoundKey :: "byte list"
  Iv :: "byte list"

definition AES_BLOCKLEN :: nat where
  "AES_BLOCKLEN = 16"

section \<open>Counter arithmetic\<close>

text \<open>
  \<^verbatim>\<open>IncrementIvBy\<close>, identical in the four files. The loop variable is the C \<open>int i\<close>
  running from 15 down; the first argument of the loop function is \<open>i + 1\<close>, so that the
  test \<open>i >= 0\<close> is the pattern \<open>Suc i\<close>. \<open>Iv[i]\<close> is widened to \<open>size_t\<close> before the
  addition, the store truncates to one byte.
\<close>

fun IncrementIvBy_loop :: "nat \<Rightarrow> byte list \<Rightarrow> size_t \<Rightarrow> byte list" where
  "IncrementIvBy_loop 0 iv carry = iv"
| "IncrementIvBy_loop (Suc i) iv carry =
     (if carry > 0 then
        (let sum = (ucast (iv ! i) :: size_t) + (carry AND 0xFF);
             iv' = iv[i := (ucast (sum AND 0xFF) :: byte)];
             carry' = drop_bit 8 carry + drop_bit 8 sum
         in IncrementIvBy_loop i iv' carry')
      else iv)"

definition IncrementIvBy :: "byte list \<Rightarrow> size_t \<Rightarrow> byte list" where
  "IncrementIvBy iv blocks = IncrementIvBy_loop AES_BLOCKLEN iv blocks"

text \<open>The value of a byte sequence read as a big-endian unsigned integer.\<close>

definition be_val :: "byte list \<Rightarrow> nat" where
  "be_val bs = foldl (\<lambda>a b. 256 * a + unat b) 0 bs"

section \<open>The block cipher and the XOR loops\<close>

text \<open>
  \<^verbatim>\<open>AES_ECB_encrypt\<close> is declared in \<^verbatim>\<open>aes.h\<close> and is not part of the sources; it is a
  parameter of every definition below: a function of the round key and of the block it
  encrypts in place. Copying a whole fixed-size array with \<^verbatim>\<open>memcpy\<close> is copying its value.
\<close>

type_synonym cipher = "byte list \<Rightarrow> byte list \<Rightarrow> byte list"

text \<open>The loop \<^verbatim>\<open>for (i = 0; i < AES_BLOCKLEN; ++i) buf[buf_idx + i] ^= buffer[i];\<close>\<close>

definition xor_block :: "byte list \<Rightarrow> nat \<Rightarrow> byte list \<Rightarrow> byte list" where
  "xor_block buf buf_idx buffer =
     fold (\<lambda>i b. b[buf_idx + i := b ! (buf_idx + i) XOR buffer ! i]) [0..<AES_BLOCKLEN] buf"

text \<open>
  The loop of the remainder:
  \<^verbatim>\<open>for (i = num_blocks * AES_BLOCKLEN; i < length; ++i, ++bi) buf[i] = buf[i] ^ buffer[bi];\<close>
  with \<open>uint8_t bi = 0\<close> carried along.
\<close>

definition xor_tail :: "byte list \<Rightarrow> nat \<Rightarrow> nat \<Rightarrow> byte list \<Rightarrow> byte list" where
  "xor_tail buf start stop buffer =
     fst (fold (\<lambda>i (b, bi). (b[i := b ! i XOR buffer ! unat bi], bi + 1))
            [start..<stop] (buf, 0 :: byte))"

section \<open>The fork-join region\<close>

text \<open>
  Modelled from the spec: the Work Partitioner. The sources only say
  \<^verbatim>\<open>#pragma omp for schedule(static)\<close>; the division of the iterations is done by the
  OpenMP runtime, which is not part of the sources. Following section 4.2 (contiguous
  ranges, an even split, the remainder blocks distributed to the first ranges), the thread
  \<open>tid\<close> of a team of \<open>nthreads\<close> receives the half-open range returned here.
\<close>

definition static_chunk :: "nat \<Rightarrow> nat \<Rightarrow> nat \<Rightarrow> nat \<times> nat" where
  "static_chunk n nthreads tid =
     (let q = n div nthreads; t = n mod nthreads
      in if tid < t then ((q + 1) * tid, (q + 1) * tid + (q + 1))
         else (q * tid + t, q * tid + t + q))"

text \<open>
  The work-sharing loop as one thread runs it: the loop body for each \<open>size_t block_idx\<close> of
  the thread's range, in increasing order.
\<close>

definition omp_for_static :: "nat \<Rightarrow> nat \<Rightarrow> nat \<Rightarrow> (size_t \<Rightarrow> 's \<Rightarrow> 's) \<Rightarrow> 's \<Rightarrow> 's" where
  "omp_for_static nthreads tid n body st =
     (case static_chunk n nthreads tid of (s, e) \<Rightarrow> fold body (map of_nat [s..<e]) st)"

text \<open>
  The parallel region: every thread of the team runs the region, and the region ends when
  all of them have. The threads write disjoint parts of the shared state, so the model runs
  them one after the other, in the order of their identifiers. The transforms have no
  argument for the size of the team: it is what the OpenMP runtime provides, and a team has
  at least one thread, hence \<open>0 < nthreads\<close> in the statements.
\<close>

definition omp_parallel :: "nat \<Rightarrow> (nat \<Rightarrow> 's \<Rightarrow> 's) \<Rightarrow> 's \<Rightarrow> 's" where
  "omp_parallel nthreads region st = fold region [0..<nthreads] st"

section \<open>Private copies: \<^verbatim>\<open>aes_openmp.c\<close>\<close>

definition openmp_block :: "cipher \<Rightarrow> byte list \<Rightarrow> byte list \<Rightarrow> size_t \<Rightarrow> byte list \<Rightarrow> byte list" where
  "openmp_block cipher thread_local_ctx initial_iv block_idx buf =
     (let thread_iv = initial_iv;
          thread_iv = IncrementIvBy thread_iv block_idx;
          buffer = thread_iv;
          buffer = cipher thread_local_ctx buffer;
          buf_idx = unat (block_idx * 16)
      in xor_block buf buf_idx buffer)"

definition AES_CTR_xcrypt_buffer_openmp ::
  "cipher \<Rightarrow> nat \<Rightarrow> AES_ctx \<Rightarrow> byte list \<Rightarrow> size_t \<Rightarrow> AES_ctx \<times> byte list" where
  "AES_CTR_xcrypt_buffer_openmp cipher nthreads ctx buf len =
     (let num_blocks = len div 16;
          initial_iv = Iv ctx;
          buf = omp_parallel nthreads (\<lambda>tid.
                  (let thread_local_ctx = RoundKey ctx
                   in omp_for_static nthreads tid (unat num_blocks)
                        (openmp_block cipher thread_local_ctx initial_iv))) buf;
          ctx = ctx\<lparr>Iv := initial_iv\<rparr>;
          ctx = ctx\<lparr>Iv := IncrementIvBy (Iv ctx) num_blocks\<rparr>
      in if len mod 16 \<noteq> 0 then
           (let remainder_ctx = RoundKey ctx;
                buffer = Iv ctx;
                buffer = cipher remainder_ctx buffer;
                buf = xor_tail buf (unat (num_blocks * 16)) (unat len) buffer;
                ctx = ctx\<lparr>Iv := IncrementIvBy (Iv ctx) 1\<rparr>
            in (ctx, buf))
         else (ctx, buf))"

section \<open>Shared context: \<^verbatim>\<open>aes_openmp_shared_ctx.c\<close>\<close>

definition shared_ctx_block :: "cipher \<Rightarrow> AES_ctx \<Rightarrow> byte list \<Rightarrow> size_t \<Rightarrow> byte list \<Rightarrow> byte list" where
  "shared_ctx_block cipher ctx initial_iv block_idx buf =
     (let thread_iv = initial_iv;
          thread_iv = IncrementIvBy thread_iv block_idx;
          buffer = thread_iv;
          buffer = cipher (RoundKey ctx) buffer;
          buf_idx = unat (block_idx * 16)
      in xor_block buf buf_idx buffer)"

definition AES_CTR_xcrypt_buffer_openmp_shared_ctx ::
  "cipher \<Rightarrow> nat \<Rightarrow> AES_ctx \<Rightarrow> byte list \<Rightarrow> size_t \<Rightarrow> AES_ctx \<times> byte list" where
  "AES_CTR_xcrypt_buffer_openmp_shared_ctx cipher nthreads ctx buf len =
     (let num_blocks = len div 16;
          initial_iv = Iv ctx;
          buf = omp_parallel nthreads (\<lambda>tid.
                  omp_for_static nthreads tid (unat num_blocks)
                    (shared_ctx_block cipher ctx initial_iv)) buf;
          ctx = ctx\<lparr>Iv := initial_iv\<rparr>;
          ctx = ctx\<lparr>Iv := IncrementIvBy (Iv ctx) num_blocks\<rparr>
      in if len mod 16 \<noteq> 0 then
           (let buffer = Iv ctx;
                buffer = cipher (RoundKey ctx) buffer;
                buf = xor_tail buf (unat (num_blocks * 16)) (unat len) buffer;
                ctx = ctx\<lparr>Iv := IncrementIvBy (Iv ctx) 1\<rparr>
            in (ctx, buf))
         else (ctx, buf))"

section \<open>No-wait: \<^verbatim>\<open>aes_openmp_nowait.c\<close>\<close>

text \<open>
  The \<^verbatim>\<open>nowait\<close> clause removes the barrier after the loop; the barrier that ends the
  parallel region remains, so the region still ends when every thread has finished.
\<close>

definition nowait_block :: "cipher \<Rightarrow> byte list \<Rightarrow> byte list \<Rightarrow> size_t \<Rightarrow> byte list \<Rightarrow> byte list" where
  "nowait_block cipher thread_local_ctx initial_iv block_idx buf =
     (let thread_iv = initial_iv;
          thread_iv = IncrementIvBy thread_iv block_idx;
          buffer = thread_iv;
          buffer = cipher thread_local_ctx buffer;
          buf_idx = unat (block_idx * 16)
      in xor_block buf buf_idx buffer)"

definition AES_CTR_xcrypt_buffer_openmp_nowait ::
  "cipher \<Rightarrow> nat \<Rightarrow> AES_ctx \<Rightarrow> byte list \<Rightarrow> size_t \<Rightarrow> AES_ctx \<times> byte list" where
  "AES_CTR_xcrypt_buffer_openmp_nowait cipher nthreads ctx buf len =
     (let num_blocks = len div 16;
          initial_iv = Iv ctx;
          buf = omp_parallel nthreads (\<lambda>tid.
                  (let thread_local_ctx = RoundKey ctx
                   in omp_for_static nthreads tid (unat num_blocks)
                        (nowait_block cipher thread_local_ctx initial_iv))) buf;
          ctx = ctx\<lparr>Iv := initial_iv\<rparr>;
          ctx = ctx\<lparr>Iv := IncrementIvBy (Iv ctx) num_blocks\<rparr>
      in if len mod 16 \<noteq> 0 then
           (let remainder_ctx = RoundKey ctx;
                buffer = Iv ctx;
                buffer = cipher remainder_ctx buffer;
                buf = xor_tail buf (unat (num_blocks * 16)) (unat len) buffer;
                ctx = ctx\<lparr>Iv := IncrementIvBy (Iv ctx) 1\<rparr>
            in (ctx, buf))
         else (ctx, buf))"

section \<open>False sharing: \<^verbatim>\<open>aes_openmp_false_sharing.c\<close>\<close>

text \<open>
  The scratch blocks live in two static arrays of \<^verbatim>\<open>MAX_THREADS\<close> rows, indexed by
  \<^verbatim>\<open>omp_get_thread_num()\<close>. They are file-local state that survives the call, so the
  model takes them in and hands them back. The source indexes them without a test; an
  index beyond the arrays is the fault \<open>OutOfBounds\<close> of the model.
\<close>

definition MAX_THREADS :: nat where
  "MAX_THREADS = 256"

datatype fault = OutOfBounds

record fs_static =
  thread_buffers :: "byte list list"
  thread_ivs :: "byte list list"

definition false_sharing_block ::
  "cipher \<Rightarrow> byte list \<Rightarrow> byte list \<Rightarrow> nat \<Rightarrow> size_t
     \<Rightarrow> fs_static \<times> byte list \<Rightarrow> fault + fs_static \<times> byte list" where
  "false_sharing_block cipher thread_local_ctx initial_iv thread_id block_idx = (\<lambda>(g, buf).
     if thread_id < MAX_THREADS then
       (let g = g\<lparr>thread_ivs := (thread_ivs g)[thread_id := initial_iv]\<rparr>;
            g = g\<lparr>thread_ivs :=
                  (thread_ivs g)[thread_id := IncrementIvBy (thread_ivs g ! thread_id) block_idx]\<rparr>;
            g = g\<lparr>thread_buffers := (thread_buffers g)[thread_id := thread_ivs g ! thread_id]\<rparr>;
            g = g\<lparr>thread_buffers :=
                  (thread_buffers g)[thread_id := cipher thread_local_ctx (thread_buffers g ! thread_id)]\<rparr>;
            buf_idx = unat (block_idx * 16)
        in Inr (g, xor_block buf buf_idx (thread_buffers g ! thread_id)))
     else Inl OutOfBounds)"

text \<open>Loops and regions whose body can fault: the first fault ends the run.\<close>

fun fold_fault :: "('a \<Rightarrow> 's \<Rightarrow> fault + 's) \<Rightarrow> 'a list \<Rightarrow> 's \<Rightarrow> fault + 's" where
  "fold_fault f [] st = Inr st"
| "fold_fault f (x # xs) st = (case f x st of Inl e \<Rightarrow> Inl e | Inr st' \<Rightarrow> fold_fault f xs st')"

definition omp_for_static_fault ::
  "nat \<Rightarrow> nat \<Rightarrow> nat \<Rightarrow> (size_t \<Rightarrow> 's \<Rightarrow> fault + 's) \<Rightarrow> 's \<Rightarrow> fault + 's" where
  "omp_for_static_fault nthreads tid n body st =
     (case static_chunk n nthreads tid of (s, e) \<Rightarrow> fold_fault body (map of_nat [s..<e]) st)"

definition omp_parallel_fault :: "nat \<Rightarrow> (nat \<Rightarrow> 's \<Rightarrow> fault + 's) \<Rightarrow> 's \<Rightarrow> fault + 's" where
  "omp_parallel_fault nthreads region st = fold_fault region [0..<nthreads] st"

definition AES_CTR_xcrypt_buffer_openmp_false_sharing ::
  "cipher \<Rightarrow> nat \<Rightarrow> fs_static \<Rightarrow> AES_ctx \<Rightarrow> byte list \<Rightarrow> size_t
     \<Rightarrow> fault + (AES_ctx \<times> byte list \<times> fs_static)" where
  "AES_CTR_xcrypt_buffer_openmp_false_sharing cipher nthreads g ctx buf len =
     (let num_blocks = len div 16;
          initial_iv = Iv ctx
      in case omp_parallel_fault nthreads (\<lambda>thread_id.
                (let thread_local_ctx = RoundKey ctx
                 in omp_for_static_fault nthreads thread_id (unat num_blocks)
                      (false_sharing_block cipher thread_local_ctx initial_iv thread_id))) (g, buf)
         of Inl e \<Rightarrow> Inl e
          | Inr (g, buf) \<Rightarrow>
           (let ctx = ctx\<lparr>Iv := initial_iv\<rparr>;
                ctx = ctx\<lparr>Iv := IncrementIvBy (Iv ctx) num_blocks\<rparr>
            in if len mod 16 \<noteq> 0 then
                 (let remainder_ctx = RoundKey ctx;
                      buffer = Iv ctx;
                      buffer = cipher remainder_ctx buffer;
                      buf = xor_tail buf (unat (num_blocks * 16)) (unat len) buffer;
                      ctx = ctx\<lparr>Iv := IncrementIvBy (Iv ctx) 1\<rparr>
                  in Inr (ctx, buf, g))
               else Inr (ctx, buf, g)))"

section \<open>The serial reference\<close>

text \<open>
  Modelled from the spec: the serial reference \<^verbatim>\<open>AES_CTR_xcrypt_buffer\<close>. It lives in
  \<^verbatim>\<open>aes.c\<close>, which is not part of the sources. Following the spec (counter mode encrypts
  successive counter values and XORs them into the data; the buffer is processed serially in
  block order; the counter is a big-endian integer that advances by one per block consumed,
  the trailing partial block included, and wraps silently), one block after the other takes
  the keystream of the current counter, advances the counter by one, and XORs as many
  bytes as the buffer still has.
\<close>

fun Iv_increment_loop :: "nat \<Rightarrow> byte list \<Rightarrow> byte list" where
  "Iv_increment_loop 0 iv = iv"
| "Iv_increment_loop (Suc bi) iv =
     (if iv ! bi = 255 then Iv_increment_loop bi (iv[bi := 0])
      else iv[bi := iv ! bi + 1])"

definition Iv_increment :: "byte list \<Rightarrow> byte list" where
  "Iv_increment iv = Iv_increment_loop AES_BLOCKLEN iv"

definition xor_bytes :: "byte list \<Rightarrow> nat \<Rightarrow> nat \<Rightarrow> byte list \<Rightarrow> byte list" where
  "xor_bytes buf off cnt keystream =
     fold (\<lambda>i b. b[off + i := b ! (off + i) XOR keystream ! i]) [0..<cnt] buf"

definition serial_block ::
  "cipher \<Rightarrow> byte list \<Rightarrow> nat \<Rightarrow> nat \<Rightarrow> byte list \<times> byte list \<Rightarrow> byte list \<times> byte list" where
  "serial_block cipher round_key len j = (\<lambda>(counter, buf).
     (Iv_increment counter,
      xor_bytes buf (AES_BLOCKLEN * j) (min AES_BLOCKLEN (len - AES_BLOCKLEN * j))
        (cipher round_key counter)))"

definition AES_CTR_xcrypt_buffer ::
  "cipher \<Rightarrow> AES_ctx \<Rightarrow> byte list \<Rightarrow> size_t \<Rightarrow> AES_ctx \<times> byte list" where
  "AES_CTR_xcrypt_buffer cipher ctx buf len =
     (case fold (serial_block cipher (RoundKey ctx) (unat len))
             [0..<(unat len + (AES_BLOCKLEN - 1)) div AES_BLOCKLEN] (Iv ctx, buf)
      of (counter, buf') \<Rightarrow> (ctx\<lparr>Iv := counter\<rparr>, buf'))"

section \<open>Callers and notions used in the statements\<close>

text \<open>
  What a C caller owes every transform: \<^verbatim>\<open>ctx->Iv\<close> is an array of 16 bytes and \<^verbatim>\<open>buf\<close>
  points to at least \<^verbatim>\<open>length\<close> bytes. Outside of it the C code reads and writes out of
  bounds; nothing is claimed there. The buffer and the context do not overlap.
\<close>

definition valid_call :: "AES_ctx \<Rightarrow> byte list \<Rightarrow> size_t \<Rightarrow> bool" where
  "valid_call ctx buf len \<longleftrightarrow> length (Iv ctx) = AES_BLOCKLEN \<and> unat len \<le> length buf"

text \<open>The two static arrays have \<^verbatim>\<open>MAX_THREADS\<close> rows each.\<close>

definition fs_static_ok :: "fs_static \<Rightarrow> bool" where
  "fs_static_ok g \<longleftrightarrow> length (thread_buffers g) = MAX_THREADS \<and> length (thread_ivs g) = MAX_THREADS"

text \<open>
  The four entry points on the same inputs, as \<^verbatim>\<open>test_correctness\<close> and the benchmark of
  \<^verbatim>\<open>benchmark.c\<close> run them, each giving the context and the buffer it leaves. The static
  arrays that the last one leaves behind are not visible to a caller and are dropped.
\<close>

definition run_strategies ::
  "cipher \<Rightarrow> nat \<Rightarrow> fs_static \<Rightarrow> AES_ctx \<Rightarrow> byte list \<Rightarrow> size_t
     \<Rightarrow> (fault + AES_ctx \<times> byte list) list" where
  "run_strategies cipher nthreads g ctx buf len =
     [Inr (AES_CTR_xcrypt_buffer_openmp cipher nthreads ctx buf len),
      Inr (AES_CTR_xcrypt_buffer_openmp_shared_ctx cipher nthreads ctx buf len),
      Inr (AES_CTR_xcrypt_buffer_openmp_nowait cipher nthreads ctx buf len),
      map_sum id (\<lambda>(ctx', buf', g'). (ctx', buf'))
        (AES_CTR_xcrypt_buffer_openmp_false_sharing cipher nthreads g ctx buf len)]"

text \<open>
  The keystream block of block \<open>j\<close>, and the buffer with its first \<open>n\<close> bytes XORed with the
  keystream: the result every transform is compared with in the proofs.
\<close>

definition ctr_keystream :: "cipher \<Rightarrow> byte list \<Rightarrow> byte list \<Rightarrow> nat \<Rightarrow> byte list" where
  "ctr_keystream cipher round_key iv j = cipher round_key (IncrementIvBy iv (of_nat j))"

definition ctr_xor :: "cipher \<Rightarrow> byte list \<Rightarrow> byte list \<Rightarrow> byte list \<Rightarrow> nat \<Rightarrow> byte list" where
  "ctr_xor cipher round_key iv buf n =
     map (\<lambda>i. if i < n then buf ! i XOR ctr_keystream cipher round_key iv (i div 16) ! (i mod 16)
               else buf ! i) [0..<length buf]"

text \<open>The first block of the range of thread \<open>tid\<close>, in closed form.\<close>

definition chunk_start :: "nat \<Rightarrow> nat \<Rightarrow> nat \<Rightarrow> nat" where
  "chunk_start n nthreads tid = (n div nthreads) * tid + min tid (n mod nthreads)"

text \<open>
  Concrete inputs for the instances below: the counter block of \<^verbatim>\<open>test_correctness\<close>, a
  stand-in cipher (the block XORed with the first bytes of the round key, then reversed),
  a context, a buffer of 40 bytes and zeroed static arrays.
\<close>

definition test_iv :: "byte list" where
  "test_iv = [0xf0, 0xf1, 0xf2, 0xf3, 0xf4, 0xf5, 0xf6, 0xf7,
              0xf8, 0xf9, 0xfa, 0xfb, 0xfc, 0xfd, 0xfe, 0xff]"

definition test_key :: "byte list" where
  "test_key = [0x2b, 0x7e, 0x15, 0x16, 0x28, 0xae, 0xd2, 0xa6,
               0xab, 0xf7, 0x15, 0x88, 0x09, 0xcf, 0x4f, 0x3c]"

definition test_cipher :: cipher where
  "test_cipher round_key block = rev (map2 (XOR) block round_key)"

definition test_ctx :: AES_ctx where
  "test_ctx = \<lparr>RoundKey = test_key, Iv = test_iv\<rparr>"

definition test_buf :: "byte list" where
  "test_buf = map of_nat [0..<40]"

definition test_static :: fs_static where
  "test_static = \<lparr>thread_buffers = replicate 256 (replicate 16 0),
                   thread_ivs = replicate 256 (replicate 16 0)\<rparr>"

section \<open>Counter arithmetic: proofs\<close>

subsection \<open>Machine arithmetic of one loop step\<close>

lemma unat_byte_lt: "unat (x :: byte) < 256"
  using unsigned_less [of x, where ?'a = nat] by simp

lemma unat_and_FF: "unat ((c::size_t) AND 0xFF) = unat c mod 256"
proof -
  have "(0xFF :: size_t) = mask 8" by (simp add: mask_eq_exp_minus_1)
  then have "c AND 0xFF = take_bit 8 c" by (simp add: take_bit_eq_mask)
  then show ?thesis by (simp add: unsigned_take_bit_eq take_bit_eq_mod unat_mod)
qed

lemma unat_drop_bit_8: "unat (drop_bit 8 (c::size_t)) = unat c div 256"
  by (simp add: unat_drop_bit_eq drop_bit_eq_div unat_div)

lemma unat_ucast_byte: "unat (ucast (x::byte) :: size_t) = unat x"
proof -
  have "unat x < 2 ^ 64" using unat_byte_lt [of x] by simp
  then show ?thesis by (simp add: unsigned_ucast_eq take_bit_nat_eq_self)
qed

lemma unat_size_t_lt: "unat (c :: size_t) < 2 ^ 64"
  using unsigned_less [of c, where ?'a = nat] by simp

lemma unat_ucast_size_t_byte: "unat (ucast (s::size_t) :: byte) = unat s mod 256"
  by (simp add: unsigned_ucast_eq take_bit_eq_mod)

lemma step_sum:
  fixes x :: byte and c :: size_t
  defines "s \<equiv> (ucast x :: size_t) + (c AND 0xFF)"
  shows "unat s = unat x + unat c mod 256"
    and "unat (ucast (s AND 0xFF) :: byte) = (unat x + unat c mod 256) mod 256"
    and "unat (drop_bit 8 c + drop_bit 8 s) = unat c div 256 + (unat x + unat c mod 256) div 256"
proof -
  have x: "unat x < 256" by (rule unat_byte_lt)
  have c: "unat c < 2 ^ 64" by (rule unat_size_t_lt)
  have "unat (ucast x :: size_t) + unat (c AND 0xFF) < 2 ^ LENGTH(64)"
    using x by (simp add: unat_ucast_byte unat_and_FF) 
  then show s: "unat s = unat x + unat c mod 256"
    unfolding s_def by (simp add: unat_add_lem [THEN iffD1] unat_ucast_byte unat_and_FF)
  show "unat (ucast (s AND 0xFF) :: byte) = (unat x + unat c mod 256) mod 256"
    by (simp add: unat_ucast_size_t_byte unat_and_FF s)
  have "unat c div 256 < 2 ^ 56" using c by simp
  moreover have "(unat x + unat c mod 256) div 256 \<le> 1" using x by simp
  ultimately have "unat (drop_bit 8 c) + unat (drop_bit 8 s) < 2 ^ LENGTH(64)"
    by (simp add: unat_drop_bit_8 s)
  then show "unat (drop_bit 8 c + drop_bit 8 s) = unat c div 256 + (unat x + unat c mod 256) div 256"
    by (simp add: unat_add_lem [THEN iffD1] unat_drop_bit_8 s)
qed

lemma be_val_Nil [simp]: "be_val [] = 0" by (simp add: be_val_def)

lemma be_val_snoc [simp]: "be_val (xs @ [x]) = 256 * be_val xs + unat x"
  by (simp add: be_val_def)

lemma be_val_append: "be_val (xs @ ys) = be_val xs * 256 ^ length ys + be_val ys"
  by (induction ys rule: rev_induct) (simp_all add: algebra_simps flip: append_assoc)

lemma be_val_Cons: "be_val (x # xs) = unat x * 256 ^ length xs + be_val xs"
  using be_val_append [of "[x]" xs] be_val_snoc [of "[]" x] by simp

lemma be_val_bound: "be_val xs < 256 ^ length xs"
proof (induction xs rule: rev_induct)
  case Nil show ?case by simp
next
  case (snoc x xs)
  have "unat x < 256" by (rule unat_byte_lt)
  with snoc show ?case by simp
qed

lemma be_val_update:
  assumes "i < length xs"
  shows "be_val (xs[i := v]) + unat (xs ! i) * 256 ^ (length xs - Suc i)
       = be_val xs + unat v * 256 ^ (length xs - Suc i)"
proof -
  have xs: "xs = take i xs @ (xs ! i) # drop (Suc i) xs"
    using assms by (rule id_take_nth_drop)
  have up: "xs[i := v] = take i xs @ v # drop (Suc i) xs"
    using assms by (rule upd_conv_take_nth_drop)
  have len: "length (drop (Suc i) xs) = length xs - Suc i" by simp
  have "be_val xs = be_val (take i xs) * 256 ^ Suc (length xs - Suc i)
      + (unat (xs ! i) * 256 ^ (length xs - Suc i) + be_val (drop (Suc i) xs))"
    by (subst xs) (simp only: be_val_append be_val_Cons len length_Cons)
  moreover have "be_val (xs[i := v]) = be_val (take i xs) * 256 ^ Suc (length xs - Suc i)
      + (unat v * 256 ^ (length xs - Suc i) + be_val (drop (Suc i) xs))"
    by (subst up) (simp only: be_val_append be_val_Cons len length_Cons)
  ultimately show ?thesis by simp
qed

lemma IncrementIvBy_loop_length [simp]:
  "length (IncrementIvBy_loop i iv c) = length iv"
  by (induction i arbitrary: iv c) (simp_all add: Let_def)

lemma IncrementIvBy_loop_val:
  "i \<le> length iv \<Longrightarrow>
   be_val (IncrementIvBy_loop i iv c) mod 256 ^ length iv
     = (be_val iv + unat c * 256 ^ (length iv - i)) mod 256 ^ length iv"
proof (induction i arbitrary: iv c)
  case 0
  show ?case by simp
next
  case (Suc i)
  show ?case
  proof (cases "c = 0")
    case True
    then show ?thesis by simp
  next
    case False
    define s where "s = (ucast (iv ! i) :: size_t) + (c AND 0xFF)"
    define v where "v = (ucast (s AND 0xFF) :: byte)"
    define c' where "c' = drop_bit 8 c + drop_bit 8 s"
    define P :: nat where "P = 256 ^ (length iv - Suc i)"
    have i: "i < length iv" using Suc.prems by simp
    have unfold: "IncrementIvBy_loop (Suc i) iv c = IncrementIvBy_loop i (iv[i := v]) c'"
      using False by (simp add: Let_def s_def v_def c'_def word_gt_0)
    have sv: "unat s = unat (iv ! i) + unat c mod 256"
      and vv: "unat v = (unat (iv ! i) + unat c mod 256) mod 256"
      and cv: "unat c' = unat c div 256 + (unat (iv ! i) + unat c mod 256) div 256"
      unfolding s_def v_def c'_def by (rule step_sum)+
    have digits: "unat v + 256 * unat c' = unat (iv ! i) + unat c"
    proof -
      have "unat s mod 256 + 256 * (unat s div 256) = unat s" by simp
      moreover have "unat c mod 256 + 256 * (unat c div 256) = unat c" by simp
      ultimately have "unat s mod 256 + 256 * (unat c div 256 + unat s div 256)
          = unat (iv ! i) + unat c"
        unfolding sv by (simp only: distrib_left)
      then show ?thesis unfolding vv cv sv .
    qed
    have pow: "256 ^ (length iv - i) = 256 * P"
      using i by (simp add: P_def Suc_diff_Suc flip: power_Suc)
    have upd: "be_val (iv[i := v]) + unat (iv ! i) * P = be_val iv + unat v * P"
      unfolding P_def using i by (rule be_val_update)
    have "be_val (iv[i := v]) + unat c' * (256 * P) + unat (iv ! i) * P
        = be_val iv + (unat v + 256 * unat c') * P"
      using upd by (simp add: algebra_simps)
    also have "\<dots> = be_val iv + unat c * P + unat (iv ! i) * P"
      unfolding digits by (simp add: algebra_simps)
    finally have eq: "be_val (iv[i := v]) + unat c' * (256 * P) = be_val iv + unat c * P"
      by simp
    have "be_val (IncrementIvBy_loop i (iv[i := v]) c') mod 256 ^ length iv
        = (be_val (iv[i := v]) + unat c' * 256 ^ (length iv - i)) mod 256 ^ length iv"
      using Suc.IH [of "iv[i := v]" c'] i by simp
    then show ?thesis
      unfolding unfold pow eq by (simp add: P_def)
  qed
qed

lemma be_val_IncrementIvBy:
  assumes "length iv = AES_BLOCKLEN"
  shows "be_val (IncrementIvBy iv k) = (be_val iv + unat k) mod 2 ^ 128"
proof -
  have len: "length (IncrementIvBy iv k) = 16"
    using assms by (simp add: IncrementIvBy_def AES_BLOCKLEN_def)
  have "be_val (IncrementIvBy iv k) < 256 ^ 16"
    using be_val_bound [of "IncrementIvBy iv k"] by (simp only: len)
  moreover have "be_val (IncrementIvBy iv k) mod 256 ^ 16 = (be_val iv + unat k) mod 256 ^ 16"
    using IncrementIvBy_loop_val [of 16 iv k] assms
    by (simp add: IncrementIvBy_def AES_BLOCKLEN_def)
  moreover have "(256::nat) ^ 16 = 2 ^ 128" by simp
  ultimately show ?thesis by simp
qed

lemma be_val_inj:
  "length xs = length ys \<Longrightarrow> be_val xs = be_val ys \<Longrightarrow> xs = ys"
proof (induction xs arbitrary: ys rule: rev_induct)
  case Nil
  then show ?case by simp
next
  case (snoc x xs)
  from snoc.prems(1) obtain ys' y where ys: "ys = ys' @ [y]"
    by (cases ys rule: rev_cases) simp_all
  have x: "unat x < 256" and y: "unat y < 256" by (rule unat_byte_lt)+
  have eq: "256 * be_val xs + unat x = 256 * be_val ys' + unat y"
    using snoc.prems(2) by (simp add: ys)
  have "(256 * be_val xs + unat x) mod 256 = unat x"
    and "(256 * be_val ys' + unat y) mod 256 = unat y"
    using x y by simp_all
  with eq have "unat x = unat y" by simp
  moreover have "(256 * be_val xs + unat x) div 256 = be_val xs"
    and "(256 * be_val ys' + unat y) div 256 = be_val ys'"
    using x y by simp_all
  with eq have "be_val xs = be_val ys'" by simp
  moreover have "length xs = length ys'" using snoc.prems(1) by (simp add: ys)
  ultimately show ?case using snoc.IH [of "ys'"] by (simp add: ys word_unat_eq_iff)
qed


lemma IncrementIvBy_length [simp]: "length (IncrementIvBy iv k) = length iv"
  by (simp add: IncrementIvBy_def)

lemma IncrementIvBy_add:
  assumes "length iv = AES_BLOCKLEN" "unat k1 + unat k2 < 2 ^ 64"
  shows "IncrementIvBy (IncrementIvBy iv k1) k2 = IncrementIvBy iv (k1 + k2)"
proof (rule be_val_inj)
  show "length (IncrementIvBy (IncrementIvBy iv k1) k2) = length (IncrementIvBy iv (k1 + k2))"
    by simp
  have sum: "unat (k1 + k2) = unat k1 + unat k2"
    using assms(2) by (simp add: unat_add_lem [THEN iffD1])
  have "be_val (IncrementIvBy (IncrementIvBy iv k1) k2)
      = ((be_val iv + unat k1) mod 2 ^ 128 + unat k2) mod 2 ^ 128"
    using assms(1) by (simp only: be_val_IncrementIvBy IncrementIvBy_length)
  also have "\<dots> = (be_val iv + (unat k1 + unat k2)) mod 2 ^ 128"
    by (simp only: mod_add_left_eq add.assoc)
  also have "\<dots> = be_val (IncrementIvBy iv (k1 + k2))"
    using assms(1) by (simp only: be_val_IncrementIvBy sum)
  finally show "be_val (IncrementIvBy (IncrementIvBy iv k1) k2) = be_val (IncrementIvBy iv (k1 + k2))" .
qed

lemma IncrementIvBy_0 [simp]: "IncrementIvBy iv 0 = iv"
  by (simp add: IncrementIvBy_def AES_BLOCKLEN_def numeral_eq_Suc)

text \<open>
  C3. For every 16-byte counter and every \<open>size_t\<close> value \<open>k\<close>, \<open>IncrementIvBy\<close> leaves
  a 16-byte counter whose big-endian value is the old value plus \<open>k\<close>, reduced modulo
  \<open>2 ^ 128\<close>: carries run from the last byte leftwards and a carry out of the first byte
  is dropped. The function is total, so there is no failure path.
\<close>

theorem IncrementIvBy_adds_big_endian:
  assumes "length iv = AES_BLOCKLEN"
  shows "length (IncrementIvBy iv k) = AES_BLOCKLEN
       \<and> be_val (IncrementIvBy iv k) = (be_val iv + unat k) mod 2 ^ 128"
proof
  show "length (IncrementIvBy iv k) = AES_BLOCKLEN"
    using assms by (simp add: IncrementIvBy_def)
  show "be_val (IncrementIvBy iv k) = (be_val iv + unat k) mod 2 ^ 128"
    using assms by (rule be_val_IncrementIvBy)
qed

theorem IncrementIvBy_adds_big_endian_witness:
  "length [0, 0, 0, 0, 0, 0, 0, 0, 0, 0, 0, 0, 0, 0, 0xFF, 0xFE :: byte] = AES_BLOCKLEN
   \<and> length (IncrementIvBy [0, 0, 0, 0, 0, 0, 0, 0, 0, 0, 0, 0, 0, 0, 0xFF, 0xFE] 0x102) = AES_BLOCKLEN
   \<and> be_val (IncrementIvBy [0, 0, 0, 0, 0, 0, 0, 0, 0, 0, 0, 0, 0, 0, 0xFF, 0xFE] 0x102)
     = (be_val [0, 0, 0, 0, 0, 0, 0, 0, 0, 0, 0, 0, 0, 0, 0xFF, 0xFE] + unat (0x102 :: size_t)) mod 2 ^ 128"
  using IncrementIvBy_adds_big_endian
    [of "[0, 0, 0, 0, 0, 0, 0, 0, 0, 0, 0, 0, 0, 0, 0xFF, 0xFE]" "0x102"]
  by (simp add: AES_BLOCKLEN_def)

section \<open>The XOR loops and the partition: proofs\<close>

lemma length_xor_bytes [simp]: "length (xor_bytes buf off cnt ks) = length buf"
  by (induction cnt) (simp_all add: xor_bytes_def)

lemma xor_bytes_Suc:
  "xor_bytes buf off (Suc cnt) ks =
     (xor_bytes buf off cnt ks)[off + cnt := xor_bytes buf off cnt ks ! (off + cnt) XOR ks ! cnt]"
  by (simp add: xor_bytes_def)

lemma nth_xor_bytes:
  "i < length buf \<Longrightarrow>
   xor_bytes buf off cnt ks ! i =
     (if off \<le> i \<and> i < off + cnt then buf ! i XOR ks ! (i - off) else buf ! i)"
proof (induction cnt)
  case 0
  then show ?case by (auto simp: xor_bytes_def)
next
  case (Suc cnt)
  show ?case
  proof (cases "i = off + cnt")
    case True
    then show ?thesis using Suc by (simp add: xor_bytes_Suc)
  next
    case False
    then have "xor_bytes buf off (Suc cnt) ks ! i = xor_bytes buf off cnt ks ! i"
      by (simp add: xor_bytes_Suc)
    also have "\<dots> = (if off \<le> i \<and> i < off + cnt then buf ! i XOR ks ! (i - off) else buf ! i)"
      using Suc by simp
    finally show ?thesis using False by auto
  qed
qed

lemma xor_block_eq: "xor_block buf idx buffer = xor_bytes buf idx AES_BLOCKLEN buffer"
  by (simp add: xor_block_def xor_bytes_def)

lemma unat_of_nat_byte: "k < 256 \<Longrightarrow> unat (of_nat k :: byte) = k"
  by (simp add: unat_of_nat)

lemma xor_tail_fold:
  "m \<le> 256 \<Longrightarrow>
   fold (\<lambda>i (b, bi). (b[i := b ! i XOR buffer ! unat bi], bi + 1)) [start..<start + m] (buf, 0 :: byte)
     = (xor_bytes buf start m buffer, of_nat m)"
proof (induction m)
  case 0
  then show ?case by (simp add: xor_bytes_def)
next
  case (Suc m)
  have split: "[start..<start + Suc m] = [start..<start + m] @ [start + m]" by simp
  have m: "m \<le> 256" "m < 256" using Suc.prems by simp_all
  show ?case
    unfolding split fold_append comp_apply Suc.IH [OF m(1)]
    using m(2) by (simp add: xor_bytes_Suc unat_of_nat_byte)
qed

lemma xor_tail_eq:
  assumes "start \<le> stop" "stop - start \<le> 256"
  shows "xor_tail buf start stop buffer = xor_bytes buf start (stop - start) buffer"
proof -
  have "xor_tail buf start (start + (stop - start)) buffer
      = xor_bytes buf start (stop - start) buffer"
    unfolding xor_tail_def by (simp only: xor_tail_fold [OF assms(2)] fst_conv)
  moreover have "start + (stop - start) = stop" using assms(1) by simp
  ultimately show ?thesis by simp
qed

lemma static_chunk_eq:
  "static_chunk n W t = (chunk_start n W t, chunk_start n W (Suc t))"
  by (simp add: static_chunk_def chunk_start_def Let_def min_def algebra_simps)

lemma chunk_start_mono: "chunk_start n W t \<le> chunk_start n W (Suc t)"
  by (simp add: chunk_start_def min_def)

lemma chunk_start_0 [simp]: "chunk_start n W 0 = 0"
  by (simp add: chunk_start_def)

lemma chunk_start_end: "0 < W \<Longrightarrow> chunk_start n W W = n"
proof -
  assume "0 < W"
  then have "n mod W < W" by simp
  then have "min W (n mod W) = n mod W" by simp
  then show ?thesis by (simp add: chunk_start_def)
qed

lemma omp_region_prefix:
  "fold (\<lambda>tid. omp_for_static W tid n body) [0..<k] st
     = fold body (map of_nat [0..<chunk_start n W k]) st"
proof (induction k)
  case 0
  show ?case by simp
next
  case (Suc k)
  have "[0..<chunk_start n W (Suc k)]
      = [0..<chunk_start n W k] @ [chunk_start n W k..<chunk_start n W (Suc k)]"
    using chunk_start_mono [of n W k]
      upt_add_eq_append [of 0 "chunk_start n W k" "chunk_start n W (Suc k) - chunk_start n W k"]
    by simp
  then show ?case
    using Suc by (simp add: omp_for_static_def static_chunk_eq)
qed

lemma omp_region_eq:
  "0 < W \<Longrightarrow>
   omp_parallel W (\<lambda>tid. omp_for_static W tid n body) st = fold body (map of_nat [0..<n]) st"
  by (simp add: omp_parallel_def omp_region_prefix chunk_start_end)

lemma unat_block_idx:
  assumes "16 * j < 2 ^ 64"
  shows "unat ((of_nat j :: size_t) * 16) = 16 * j"
proof -
  have j: "unat (of_nat j :: size_t) = j" using assms by (simp add: unat_of_nat)
  have "unat ((of_nat j :: size_t) * 16) = (unat (of_nat j :: size_t) * unat (16 :: size_t)) mod 2 ^ 64"
    by (simp add: unat_word_ariths)
  then show ?thesis using assms by (simp add: j mult.commute)
qed

lemma openmp_block_eq:
  "16 * j < 2 ^ 64 \<Longrightarrow>
   openmp_block cipher rk iv (of_nat j) buf
     = xor_bytes buf (16 * j) 16 (ctr_keystream cipher rk iv j)"
  by (simp add: openmp_block_def xor_block_eq ctr_keystream_def unat_block_idx AES_BLOCKLEN_def)

lemma length_fold_blocks [simp]:
  "length (fold (\<lambda>j b. xor_bytes b (16 * j) 16 (ks j)) js buf) = length buf"
  by (induction js arbitrary: buf) simp_all

lemma block_range: "(16 * j \<le> i \<and> i < 16 * j + 16) \<longleftrightarrow> i div 16 = (j::nat)"
  by auto

lemma block_offset: "i div 16 = (j::nat) \<Longrightarrow> i - 16 * j = i mod 16"
  by (metis minus_mult_div_eq_mod)

lemma nth_fold_blocks:
  "distinct js \<Longrightarrow> i < length buf \<Longrightarrow>
   fold (\<lambda>j b. xor_bytes b (16 * j) 16 (ks j)) js buf ! i
     = (if i div 16 \<in> set js then buf ! i XOR ks (i div 16) ! (i mod 16) else buf ! i)"
proof (induction js arbitrary: buf)
  case Nil
  show ?case by simp
next
  case (Cons j js)
  let ?b = "xor_bytes buf (16 * j) 16 (ks j)"
  have step: "?b ! i = (if i div 16 = j then buf ! i XOR ks j ! (i mod 16) else buf ! i)"
    using Cons.prems(2) by (simp add: nth_xor_bytes block_range block_offset)
  have "fold (\<lambda>j b. xor_bytes b (16 * j) 16 (ks j)) (j # js) buf ! i
      = fold (\<lambda>j b. xor_bytes b (16 * j) 16 (ks j)) js ?b ! i" by simp
  also have "\<dots> = (if i div 16 \<in> set js then ?b ! i XOR ks (i div 16) ! (i mod 16) else ?b ! i)"
    using Cons.prems by (intro Cons.IH) simp_all
  finally show ?case using Cons.prems(1) step by auto
qed

lemma length_ctr_xor [simp]: "length (ctr_xor cipher rk iv buf n) = length buf"
  by (simp add: ctr_xor_def)

lemma nth_ctr_xor:
  "i < length buf \<Longrightarrow>
   ctr_xor cipher rk iv buf n ! i
     = (if i < n then buf ! i XOR ctr_keystream cipher rk iv (i div 16) ! (i mod 16) else buf ! i)"
  by (simp add: ctr_xor_def)

lemma fold_blocks_ctr_xor:
  "fold (\<lambda>j b. xor_bytes b (16 * j) 16 (ctr_keystream cipher rk iv j)) [0..<n] buf
     = ctr_xor cipher rk iv buf (16 * n)"
proof (rule nth_equalityI)
  show "length (fold (\<lambda>j b. xor_bytes b (16 * j) 16 (ctr_keystream cipher rk iv j)) [0..<n] buf)
      = length (ctr_xor cipher rk iv buf (16 * n))" by simp
next
  fix i
  assume "i < length (fold (\<lambda>j b. xor_bytes b (16 * j) 16 (ctr_keystream cipher rk iv j)) [0..<n] buf)"
  then have i: "i < length buf" by simp
  have "i div 16 \<in> set [0..<n] \<longleftrightarrow> i < 16 * n" by auto
  then show "fold (\<lambda>j b. xor_bytes b (16 * j) 16 (ctr_keystream cipher rk iv j)) [0..<n] buf ! i
      = ctr_xor cipher rk iv buf (16 * n) ! i"
    using i by (simp only: nth_fold_blocks [OF distinct_upt i] nth_ctr_xor [OF i])
qed

lemma openmp_region:
  assumes "0 < W" "16 * n < 2 ^ 64"
  shows "omp_parallel W (\<lambda>tid. omp_for_static W tid n (openmp_block cipher rk iv)) buf
       = ctr_xor cipher rk iv buf (16 * n)"
proof -
  have "fold (openmp_block cipher rk iv) (map of_nat [0..<n]) buf
      = fold (\<lambda>j b. xor_bytes b (16 * j) 16 (ctr_keystream cipher rk iv j)) [0..<n] buf"
    unfolding fold_map
  proof (rule fold_cong [OF refl refl])
    fix j assume "j \<in> set [0..<n]"
    then have "16 * j < 2 ^ 64" using assms(2) by simp
    then show "(openmp_block cipher rk iv \<circ> of_nat) j
        = (\<lambda>b. xor_bytes b (16 * j) 16 (ctr_keystream cipher rk iv j))"
      by (simp add: fun_eq_iff openmp_block_eq)
  qed
  then show ?thesis
    using assms(1) by (simp only: omp_region_eq fold_blocks_ctr_xor)
qed

text \<open>
  The order in which the blocks are taken does not matter: any sequence that takes every
  block index below \<open>n\<close> once leaves what the region of the model leaves. This is what
  allows the model to run the threads of the team one after the other.
\<close>

lemma openmp_blocks_any_order:
  assumes "distinct js" "set js = {0..<n}" "16 * n < 2 ^ 64"
  shows "fold (openmp_block cipher rk iv) (map of_nat js) buf = ctr_xor cipher rk iv buf (16 * n)"
proof -
  have "fold (openmp_block cipher rk iv) (map of_nat js) buf
      = fold (\<lambda>j b. xor_bytes b (16 * j) 16 (ctr_keystream cipher rk iv j)) js buf"
    unfolding fold_map
  proof (rule fold_cong [OF refl refl])
    fix j assume "j \<in> set js"
    then have "16 * j < 2 ^ 64" using assms(2,3) by simp
    then show "(openmp_block cipher rk iv \<circ> of_nat) j
        = (\<lambda>b. xor_bytes b (16 * j) 16 (ctr_keystream cipher rk iv j))"
      by (simp add: fun_eq_iff openmp_block_eq)
  qed
  also have "\<dots> = ctr_xor cipher rk iv buf (16 * n)"
  proof (rule nth_equalityI)
    show "length (fold (\<lambda>j b. xor_bytes b (16 * j) 16 (ctr_keystream cipher rk iv j)) js buf)
        = length (ctr_xor cipher rk iv buf (16 * n))" by simp
    fix i
    assume "i < length (fold (\<lambda>j b. xor_bytes b (16 * j) 16 (ctr_keystream cipher rk iv j)) js buf)"
    then have i: "i < length buf" by simp
    have "i div 16 \<in> set js \<longleftrightarrow> i < 16 * n" unfolding assms(2) by auto
    then show "fold (\<lambda>j b. xor_bytes b (16 * j) 16 (ctr_keystream cipher rk iv j)) js buf ! i
        = ctr_xor cipher rk iv buf (16 * n) ! i"
      using i by (simp only: nth_fold_blocks [OF assms(1) i] nth_ctr_xor [OF i])
  qed
  finally show ?thesis .
qed

text \<open>Sizes: the number of whole blocks, its product with 16, and the remainder.\<close>

lemma unat_num_blocks: "unat ((len :: size_t) div 16) = unat len div 16"
  by (simp add: unat_div)

lemma num_blocks_bound: "16 * (unat (len :: size_t) div 16) < 2 ^ 64"
proof -
  have "16 * (unat len div 16) \<le> unat len" by simp
  also have "\<dots> < 2 ^ 64" by (rule unat_size_t_lt)
  finally show ?thesis .
qed

lemma unat_num_blocks_times: "unat ((len :: size_t) div 16 * 16) = 16 * (unat len div 16)"
proof -
  have "unat (len div 16 * 16) = (unat (len div 16) * unat (16 :: size_t)) mod 2 ^ 64"
    by (simp add: unat_word_ariths)
  then show ?thesis
    using num_blocks_bound [of len] by (simp add: unat_num_blocks mult.commute)
qed

lemma remainder_zero_iff: "(len :: size_t) mod 16 = 0 \<longleftrightarrow> unat len mod 16 = 0"
proof -
  have "unat (len mod 16) = unat len mod 16" by (simp add: unat_mod)
  then show ?thesis by (metis unat_eq_0)
qed

lemma of_nat_num_blocks: "(of_nat (unat (len :: size_t) div 16) :: size_t) = len div 16"
  by (simp flip: unat_num_blocks)

lemma ctr_tail:
  assumes "16 * n \<le> L" "L < 16 * n + 16"
  shows "xor_tail (ctr_xor cipher rk iv buf (16 * n)) (16 * n) L (ctr_keystream cipher rk iv n)
       = ctr_xor cipher rk iv buf L"
proof (rule nth_equalityI)
  have le: "L - 16 * n \<le> 256" using assms by simp
  note tail = xor_tail_eq [OF assms(1) le]
  show "length (xor_tail (ctr_xor cipher rk iv buf (16 * n)) (16 * n) L (ctr_keystream cipher rk iv n))
      = length (ctr_xor cipher rk iv buf L)"
    by (simp add: tail)
  fix i
  assume "i < length (xor_tail (ctr_xor cipher rk iv buf (16 * n)) (16 * n) L (ctr_keystream cipher rk iv n))"
  then have i: "i < length buf" by (simp add: tail)
  have in_tail: "i div 16 = n" "i - 16 * n = i mod 16" if "16 * n \<le> i" "i < L"
    using that assms block_range [of n i] block_offset [of i n] by simp_all
  show "xor_tail (ctr_xor cipher rk iv buf (16 * n)) (16 * n) L (ctr_keystream cipher rk iv n) ! i
      = ctr_xor cipher rk iv buf L ! i"
    using i assms in_tail by (auto simp: tail nth_xor_bytes nth_ctr_xor)
qed

lemma openmp_result:
  assumes "0 < W"
  shows "AES_CTR_xcrypt_buffer_openmp cipher W ctx buf len
       = (ctx\<lparr>Iv := (if len mod 16 \<noteq> 0
                        then IncrementIvBy (IncrementIvBy (Iv ctx) (len div 16)) 1
                        else IncrementIvBy (Iv ctx) (len div 16))\<rparr>,
          ctr_xor cipher (RoundKey ctx) (Iv ctx) buf (unat len))"
proof -
  let ?n = "unat len div 16"
  have region: "omp_parallel W (\<lambda>tid. omp_for_static W tid (unat (len div 16))
                  (openmp_block cipher (RoundKey ctx) (Iv ctx))) buf
      = ctr_xor cipher (RoundKey ctx) (Iv ctx) buf (16 * ?n)"
    using assms num_blocks_bound [of len] by (simp only: unat_num_blocks openmp_region)
  show ?thesis
  proof (cases "len mod 16 = 0")
    case True
    then have "16 * ?n = unat len" by (simp add: remainder_zero_iff mod_eq_0_iff_dvd)
    then show ?thesis
      using True by (simp add: AES_CTR_xcrypt_buffer_openmp_def Let_def region)
  next
    case False
    have bounds: "16 * ?n \<le> unat len" "unat len < 16 * ?n + 16"
      by simp_all
    have ks: "cipher (RoundKey ctx) (IncrementIvBy (Iv ctx) (len div 16))
        = ctr_keystream cipher (RoundKey ctx) (Iv ctx) ?n"
      by (simp add: ctr_keystream_def of_nat_num_blocks)
    show ?thesis
      using False
      by (simp add: AES_CTR_xcrypt_buffer_openmp_def Let_def region unat_num_blocks_times ks
          ctr_tail [OF bounds])
  qed
qed

section \<open>The other variants: proofs\<close>

lemma shared_ctx_block_eq: "shared_ctx_block cipher ctx iv = openmp_block cipher (RoundKey ctx) iv"
  by (simp add: fun_eq_iff shared_ctx_block_def openmp_block_def)

lemma nowait_block_eq: "nowait_block = openmp_block"
  by (simp add: fun_eq_iff nowait_block_def openmp_block_def)

lemma shared_ctx_result:
  "AES_CTR_xcrypt_buffer_openmp_shared_ctx cipher W ctx buf len
     = AES_CTR_xcrypt_buffer_openmp cipher W ctx buf len"
  by (simp add: AES_CTR_xcrypt_buffer_openmp_shared_ctx_def AES_CTR_xcrypt_buffer_openmp_def
      shared_ctx_block_eq Let_def)

lemma nowait_result:
  "AES_CTR_xcrypt_buffer_openmp_nowait cipher W ctx buf len
     = AES_CTR_xcrypt_buffer_openmp cipher W ctx buf len"
  by (simp add: AES_CTR_xcrypt_buffer_openmp_nowait_def AES_CTR_xcrypt_buffer_openmp_def
      nowait_block_eq Let_def)

lemma false_sharing_block_ok:
  assumes "tid < MAX_THREADS" "fs_static_ok g"
  shows "\<exists>g'. fs_static_ok g'
           \<and> false_sharing_block cipher rk iv tid j (g, buf) = Inr (g', openmp_block cipher rk iv j buf)"
  using assms
  by (simp add: false_sharing_block_def openmp_block_def fs_static_ok_def Let_def)

lemma false_sharing_block_fault:
  "MAX_THREADS \<le> tid \<Longrightarrow> false_sharing_block cipher rk iv tid j st = Inl OutOfBounds"
  by (cases st) (simp add: false_sharing_block_def)

lemma fold_fault_append:
  "fold_fault f (xs @ ys) st
     = (case fold_fault f xs st of Inl e \<Rightarrow> Inl e | Inr st' \<Rightarrow> fold_fault f ys st')"
  by (induction xs arbitrary: st) (simp_all split: sum.splits)

lemma fold_fault_ok:
  assumes "\<And>x g b. x \<in> set xs \<Longrightarrow> ok g \<Longrightarrow> \<exists>g'. ok g' \<and> f x (g, b) = Inr (g', h x b)"
    and "ok g"
  shows "\<exists>g'. ok g' \<and> fold_fault f xs (g, buf) = Inr (g', fold h xs buf)"
  using assms
proof (induction xs arbitrary: g buf)
  case Nil
  then show ?case by simp
next
  case (Cons x xs)
  from Cons.prems obtain g1 where g1: "ok g1" "f x (g, buf) = Inr (g1, h x buf)"
    by (meson list.set_intros(1))
  have "\<exists>g'. ok g' \<and> fold_fault f xs (g1, h x buf) = Inr (g', fold h xs (h x buf))"
    using Cons.prems(1) g1(1) by (intro Cons.IH) simp_all
  then show ?case by (simp add: g1(2))
qed

lemma false_sharing_region_ok:
  assumes "W \<le> MAX_THREADS" "fs_static_ok g"
  shows "\<exists>g'. fs_static_ok g'
         \<and> omp_parallel_fault W (\<lambda>tid. omp_for_static_fault W tid n
               (false_sharing_block cipher rk iv tid)) (g, buf)
           = Inr (g', omp_parallel W (\<lambda>tid. omp_for_static W tid n (openmp_block cipher rk iv)) buf)"
  unfolding omp_parallel_fault_def omp_parallel_def
proof (rule fold_fault_ok [where ok = fs_static_ok])
  show "fs_static_ok g" by (rule assms(2))
next
  fix tid g b
  assume tid: "tid \<in> set [0..<W]" and g: "fs_static_ok g"
  then have lt: "tid < MAX_THREADS" using assms(1) by simp
  obtain s e where chunk: "static_chunk n W tid = (s, e)" by (cases "static_chunk n W tid")
  have "\<exists>g'. fs_static_ok g'
        \<and> fold_fault (false_sharing_block cipher rk iv tid) (map of_nat [s..<e]) (g, b)
          = Inr (g', fold (openmp_block cipher rk iv) (map of_nat [s..<e]) b)"
    using g by (rule fold_fault_ok [rotated]) (rule false_sharing_block_ok [OF lt])
  then show "\<exists>g'. fs_static_ok g'
        \<and> omp_for_static_fault W tid n (false_sharing_block cipher rk iv tid) (g, b)
          = Inr (g', omp_for_static W tid n (openmp_block cipher rk iv) b)"
    by (simp add: omp_for_static_fault_def omp_for_static_def chunk)
qed

lemma false_sharing_result:
  assumes "W \<le> MAX_THREADS" "fs_static_ok g"
  shows "\<exists>g'. fs_static_ok g'
         \<and> AES_CTR_xcrypt_buffer_openmp_false_sharing cipher W g ctx buf len
           = Inr (fst (AES_CTR_xcrypt_buffer_openmp cipher W ctx buf len),
                  snd (AES_CTR_xcrypt_buffer_openmp cipher W ctx buf len), g')"
proof -
  from false_sharing_region_ok [OF assms]
  obtain g' where g': "fs_static_ok g'"
    "omp_parallel_fault W (\<lambda>tid. omp_for_static_fault W tid (unat (len div 16))
         (false_sharing_block cipher (RoundKey ctx) (Iv ctx) tid)) (g, buf)
     = Inr (g', omp_parallel W (\<lambda>tid. omp_for_static W tid (unat (len div 16))
         (openmp_block cipher (RoundKey ctx) (Iv ctx))) buf)"
    by blast
  show ?thesis
    by (rule exI [of _ g'])
      (simp add: g' AES_CTR_xcrypt_buffer_openmp_false_sharing_def
        AES_CTR_xcrypt_buffer_openmp_def Let_def)
qed

section \<open>The serial reference: proofs\<close>

lemma Iv_increment_loop_length [simp]: "length (Iv_increment_loop i iv) = length iv"
  by (induction i arbitrary: iv) simp_all

lemma Iv_increment_loop_val:
  "i \<le> length iv \<Longrightarrow>
   be_val (Iv_increment_loop i iv) mod 256 ^ length iv
     = (be_val iv + 256 ^ (length iv - i)) mod 256 ^ length iv"
proof (induction i arbitrary: iv)
  case 0
  show ?case by simp
next
  case (Suc i)
  define P :: nat where "P = 256 ^ (length iv - Suc i)"
  have i: "i < length iv" using Suc.prems by simp
  have pow: "256 ^ (length iv - i) = 256 * P"
    using i by (simp add: P_def Suc_diff_Suc flip: power_Suc)
  show ?case
  proof (cases "iv ! i = 255")
    case True
    have "be_val (iv[i := 0]) + unat (iv ! i) * P = be_val iv + unat (0 :: byte) * P"
      unfolding P_def using i by (rule be_val_update)
    then have eq: "be_val (iv[i := 0]) + 256 * P = be_val iv + P"
      by (simp add: True)
    have "be_val (Iv_increment_loop i (iv[i := 0])) mod 256 ^ length iv
        = (be_val (iv[i := 0]) + 256 ^ (length iv - i)) mod 256 ^ length iv"
      using Suc.IH [of "iv[i := 0]"] i by simp
    then show ?thesis
      unfolding pow eq using True by (simp add: P_def)
  next
    case False
    have "unat (iv ! i) \<noteq> 255" using False by (simp add: word_unat_eq_iff)
    then have "unat (iv ! i) + unat (1 :: byte) < 2 ^ LENGTH(8)"
      using unat_byte_lt [of "iv ! i"] by simp
    then have inc: "unat (iv ! i + 1) = unat (iv ! i) + 1"
      by (simp add: unat_add_lem [THEN iffD1])
    have "be_val (iv[i := iv ! i + 1]) + unat (iv ! i) * P = be_val iv + unat (iv ! i + 1) * P"
      unfolding P_def using i by (rule be_val_update)
    then have "be_val (iv[i := iv ! i + 1]) = be_val iv + P"
      by (simp add: inc)
    then show ?thesis using False by (simp add: P_def)
  qed
qed

lemma Iv_increment_eq:
  assumes "length iv = AES_BLOCKLEN"
  shows "Iv_increment iv = IncrementIvBy iv 1"
proof (rule be_val_inj)
  show "length (Iv_increment iv) = length (IncrementIvBy iv 1)"
    by (simp add: Iv_increment_def)
  have len: "length (Iv_increment iv) = 16"
    using assms by (simp add: Iv_increment_def AES_BLOCKLEN_def)
  have "be_val (Iv_increment iv) < 256 ^ 16"
    using be_val_bound [of "Iv_increment iv"] by (simp only: len)
  moreover have "be_val (Iv_increment iv) mod 256 ^ 16 = (be_val iv + 1) mod 256 ^ 16"
    using Iv_increment_loop_val [of 16 iv] assms
    by (simp add: Iv_increment_def AES_BLOCKLEN_def)
  moreover have "(256::nat) ^ 16 = 2 ^ 128" by simp
  ultimately have "be_val (Iv_increment iv) = (be_val iv + 1) mod 2 ^ 128" by simp
  then show "be_val (Iv_increment iv) = be_val (IncrementIvBy iv 1)"
    using assms by (simp only: be_val_IncrementIvBy unat_1)
qed

lemma of_nat_Suc_size_t: "(of_nat (Suc m) :: size_t) = of_nat m + 1"
  by simp

lemma serial_step_buf:
  "xor_bytes (ctr_xor cipher rk iv buf (min L (16 * m))) (16 * m) (min 16 (L - 16 * m))
      (ctr_keystream cipher rk iv m)
   = ctr_xor cipher rk iv buf (min L (16 * Suc m))"
proof (rule nth_equalityI)
  show "length (xor_bytes (ctr_xor cipher rk iv buf (min L (16 * m))) (16 * m) (min 16 (L - 16 * m))
      (ctr_keystream cipher rk iv m)) = length (ctr_xor cipher rk iv buf (min L (16 * Suc m)))"
    by simp
  fix i
  assume "i < length (xor_bytes (ctr_xor cipher rk iv buf (min L (16 * m))) (16 * m)
      (min 16 (L - 16 * m)) (ctr_keystream cipher rk iv m))"
  then have i: "i < length buf" by simp
  then have i': "i < length (ctr_xor cipher rk iv buf (min L (16 * m)))" by simp
  show "xor_bytes (ctr_xor cipher rk iv buf (min L (16 * m))) (16 * m) (min 16 (L - 16 * m))
      (ctr_keystream cipher rk iv m) ! i = ctr_xor cipher rk iv buf (min L (16 * Suc m)) ! i"
  proof (cases "16 * m \<le> i \<and> i < 16 * m + min 16 (L - 16 * m)")
    case True
    then have lo: "16 * m \<le> i" and hi: "i < 16 * m + 16" and L: "i < L" by auto
    have d: "i div 16 = m" using lo hi block_range [of m i] by simp
    have off: "i - 16 * m = i mod 16" using d by (rule block_offset)
    have "xor_bytes (ctr_xor cipher rk iv buf (min L (16 * m))) (16 * m) (min 16 (L - 16 * m))
        (ctr_keystream cipher rk iv m) ! i
        = ctr_xor cipher rk iv buf (min L (16 * m)) ! i XOR ctr_keystream cipher rk iv m ! (i - 16 * m)"
      using True by (simp only: nth_xor_bytes [OF i'] if_True simp_thms)
    moreover have "ctr_xor cipher rk iv buf (min L (16 * m)) ! i = buf ! i"
      using i lo by (simp add: nth_ctr_xor)
    moreover have "ctr_xor cipher rk iv buf (min L (16 * Suc m)) ! i
        = buf ! i XOR ctr_keystream cipher rk iv (i div 16) ! (i mod 16)"
      using i L hi by (simp add: nth_ctr_xor)
    ultimately show ?thesis by (simp only: d off)
  next
    case False
    then have same: "i < min L (16 * m) \<longleftrightarrow> i < min L (16 * Suc m)" by auto
    have "xor_bytes (ctr_xor cipher rk iv buf (min L (16 * m))) (16 * m) (min 16 (L - 16 * m))
        (ctr_keystream cipher rk iv m) ! i = ctr_xor cipher rk iv buf (min L (16 * m)) ! i"
      using False by (simp only: nth_xor_bytes [OF i'] if_False simp_thms)
    also have "\<dots> = ctr_xor cipher rk iv buf (min L (16 * Suc m)) ! i"
      using i by (simp only: nth_ctr_xor same)
    finally show ?thesis .
  qed
qed

lemma serial_prefix:
  assumes "length iv = AES_BLOCKLEN"
  shows "m < 2 ^ 64 \<Longrightarrow>
         fold (serial_block cipher rk L) [0..<m] (iv, buf)
           = (IncrementIvBy iv (of_nat m), ctr_xor cipher rk iv buf (min L (16 * m)))"
proof (induction m)
  case 0
  show ?case by (simp add: ctr_xor_def map_nth)
next
  case (Suc m)
  have m: "m < 2 ^ 64" "unat (of_nat m :: size_t) + unat (1 :: size_t) < 2 ^ 64"
    using Suc.prems by (simp_all add: unat_of_nat)
  have iv': "Iv_increment (IncrementIvBy iv (of_nat m)) = IncrementIvBy iv (of_nat (Suc m))"
    using assms m(2) by (simp only: Iv_increment_eq IncrementIvBy_length IncrementIvBy_add of_nat_Suc_size_t)
  have "fold (serial_block cipher rk L) [0..<Suc m] (iv, buf)
      = serial_block cipher rk L m (IncrementIvBy iv (of_nat m), ctr_xor cipher rk iv buf (min L (16 * m)))"
    using Suc.IH [OF m(1)] by simp
  also have "\<dots> = (IncrementIvBy iv (of_nat (Suc m)), ctr_xor cipher rk iv buf (min L (16 * Suc m)))"
    unfolding serial_block_def AES_BLOCKLEN_def
    by (simp only: prod.case iv' serial_step_buf flip: ctr_keystream_def)
  finally show ?case .
qed

lemma ceil_div_16:
  "((L::nat) + 15) div 16 = (if L mod 16 = 0 then L div 16 else Suc (L div 16))"
proof -
  define q r where "q = L div 16" and "r = L mod 16"
  have L: "L = 16 * q + r" and r: "r < 16" by (simp_all add: q_def r_def)
  show ?thesis
  proof (cases "r = 0")
    case True
    have "(16 * q + 15) div 16 = q" by (rule div_nat_eqI) simp_all
    then show ?thesis using True by (simp add: L)
  next
    case False
    have "(16 * q + r + 15) div 16 = Suc q" using False r by (intro div_nat_eqI) simp_all
    then show ?thesis using False r by (simp add: L)
  qed
qed

lemma serial_result:
  assumes "length (Iv ctx) = AES_BLOCKLEN"
  shows "AES_CTR_xcrypt_buffer cipher ctx buf len
       = (ctx\<lparr>Iv := (if len mod 16 \<noteq> 0
                        then IncrementIvBy (IncrementIvBy (Iv ctx) (len div 16)) 1
                        else IncrementIvBy (Iv ctx) (len div 16))\<rparr>,
          ctr_xor cipher (RoundKey ctx) (Iv ctx) buf (unat len))"
proof -
  let ?L = "unat len"
  let ?m = "(?L + 15) div 16"
  have L: "?L < 2 ^ 64" by (rule unat_size_t_lt)
  then have m: "?m < 2 ^ 64" by simp
  have cover: "min ?L (16 * ?m) = ?L" by simp
  have run: "fold (serial_block cipher (RoundKey ctx) ?L) [0..<?m] (Iv ctx, buf)
      = (IncrementIvBy (Iv ctx) (of_nat ?m), ctr_xor cipher (RoundKey ctx) (Iv ctx) buf ?L)"
    using serial_prefix [OF assms m, of cipher "RoundKey ctx" ?L buf] by (simp only: cover)
  have counter: "IncrementIvBy (Iv ctx) (of_nat ?m)
      = (if len mod 16 \<noteq> 0 then IncrementIvBy (IncrementIvBy (Iv ctx) (len div 16)) 1
         else IncrementIvBy (Iv ctx) (len div 16))"
  proof (cases "len mod 16 = 0")
    case True
    then have "?m = ?L div 16" by (simp add: remainder_zero_iff ceil_div_16)
    then show ?thesis using True by (simp add: of_nat_num_blocks)
  next
    case False
    then have "?m = Suc (?L div 16)" by (simp add: remainder_zero_iff ceil_div_16)
    moreover have "unat (len div 16) + unat (1 :: size_t) < 2 ^ 64"
      using L by (simp add: unat_num_blocks)
    ultimately show ?thesis
      using False assms by (simp add: IncrementIvBy_add of_nat_num_blocks add.commute)
  qed
  show ?thesis
    by (simp add: AES_CTR_xcrypt_buffer_def AES_BLOCKLEN_def run counter)
qed

section \<open>The claims\<close>

lemma run_strategies_result:
  assumes "0 < W" "W \<le> MAX_THREADS" "fs_static_ok g"
  shows "set (run_strategies cipher W g ctx buf len)
       = {Inr (ctx\<lparr>Iv := (if len mod 16 \<noteq> 0
                              then IncrementIvBy (IncrementIvBy (Iv ctx) (len div 16)) 1
                              else IncrementIvBy (Iv ctx) (len div 16))\<rparr>,
               ctr_xor cipher (RoundKey ctx) (Iv ctx) buf (unat len))}"
proof -
  from false_sharing_result [OF assms(2,3), of cipher ctx buf len]
  obtain g' where "AES_CTR_xcrypt_buffer_openmp_false_sharing cipher W g ctx buf len
      = Inr (fst (AES_CTR_xcrypt_buffer_openmp cipher W ctx buf len),
             snd (AES_CTR_xcrypt_buffer_openmp cipher W ctx buf len), g')"
    by blast
  then show ?thesis
    by (simp add: run_strategies_def shared_ctx_result nowait_result openmp_result [OF assms(1)])
qed

lemma worker_count_bounds:
  "W \<in> {1, 2, 4, 8, 16} \<Longrightarrow> 0 < W \<and> W \<le> MAX_THREADS"
  by (auto simp: MAX_THREADS_def)

text \<open>
  C1. For every key schedule, counter, buffer and length of a valid call and every team of
  1, 2, 4, 8 or 16 threads, each of the four parallel transforms leaves exactly what the
  serial reference leaves (the buffer, and the context with it); so all strategies agree
  with each other.
\<close>

theorem parallel_matches_serial:
  assumes "nthreads \<in> {1, 2, 4, 8, 16}" and "valid_call ctx buf len" and "fs_static_ok g"
  shows "\<forall>r \<in> set (run_strategies cipher nthreads g ctx buf len).
           r = Inr (AES_CTR_xcrypt_buffer cipher ctx buf len)"
proof -
  have W: "0 < nthreads" "nthreads \<le> MAX_THREADS"
    using worker_count_bounds [OF assms(1)] by simp_all
  have iv: "length (Iv ctx) = AES_BLOCKLEN" using assms(2) by (simp add: valid_call_def)
  show ?thesis
    by (simp only: run_strategies_result [OF W assms(3)] serial_result [OF iv]) simp
qed

theorem parallel_matches_serial_witness:
  "(4::nat) \<in> {1, 2, 4, 8, 16} \<and> valid_call test_ctx test_buf 17 \<and> fs_static_ok test_static
   \<and> AES_CTR_xcrypt_buffer_openmp test_cipher 4 test_ctx test_buf 17
       = AES_CTR_xcrypt_buffer test_cipher test_ctx test_buf 17
   \<and> AES_CTR_xcrypt_buffer_openmp_shared_ctx test_cipher 4 test_ctx test_buf 17
       = AES_CTR_xcrypt_buffer test_cipher test_ctx test_buf 17
   \<and> AES_CTR_xcrypt_buffer_openmp_nowait test_cipher 4 test_ctx test_buf 17
       = AES_CTR_xcrypt_buffer test_cipher test_ctx test_buf 17
   \<and> map_sum id (\<lambda>(ctx', buf', g'). (ctx', buf'))
         (AES_CTR_xcrypt_buffer_openmp_false_sharing test_cipher 4 test_static test_ctx test_buf 17)
       = Inr (AES_CTR_xcrypt_buffer test_cipher test_ctx test_buf 17)"
proof -
  have h1: "(4::nat) \<in> {1, 2, 4, 8, 16}" by simp
  have h2: "valid_call test_ctx test_buf 17"
    by (simp add: valid_call_def test_ctx_def test_iv_def test_buf_def AES_BLOCKLEN_def)
  have h3: "fs_static_ok test_static"
    by (simp add: fs_static_ok_def test_static_def MAX_THREADS_def)
  show ?thesis
    using h1 h2 h3 parallel_matches_serial [OF h1 h2 h3, of test_cipher]
    by (simp add: run_strategies_def)
qed

lemma final_counter_val:
  assumes "length iv = AES_BLOCKLEN"
  shows "be_val (if len mod 16 \<noteq> 0 then IncrementIvBy (IncrementIvBy iv (len div 16)) 1
                 else IncrementIvBy iv (len div 16))
       = (be_val iv + (unat len + 15) div 16) mod 2 ^ 128"
proof (cases "len mod 16 = 0")
  case True
  then have "(unat len + 15) div 16 = unat len div 16"
    by (simp add: remainder_zero_iff ceil_div_16)
  then show ?thesis
    using True assms by (simp add: be_val_IncrementIvBy unat_num_blocks)
next
  case False
  then have ceil: "(unat len + 15) div 16 = Suc (unat len div 16)"
    by (simp add: remainder_zero_iff ceil_div_16)
  have "be_val (IncrementIvBy (IncrementIvBy iv (len div 16)) 1)
      = ((be_val iv + unat len div 16) mod 2 ^ 128 + 1) mod 2 ^ 128"
    using assms by (simp only: be_val_IncrementIvBy IncrementIvBy_length unat_num_blocks unat_1)
  also have "\<dots> = (be_val iv + Suc (unat len div 16)) mod 2 ^ 128"
    by (simp only: mod_add_left_eq add_Suc_right Suc_eq_plus1 add.assoc)
  finally show ?thesis using False by (simp only: ceil if_True simp_thms)
qed

text \<open>
  C2. After any of the four transforms has run on a valid call, the counter of the context,
  read as a big-endian integer, is the initial counter plus the number of blocks of the
  buffer, a trailing partial block counted, modulo \<open>2 ^ 128\<close>; for an empty buffer the
  counter is unchanged.
\<close>

theorem counter_advances_by_blocks:
  assumes "0 < nthreads" and "nthreads \<le> MAX_THREADS"
    and "valid_call ctx buf len" and "fs_static_ok g"
  shows "\<forall>r \<in> set (run_strategies cipher nthreads g ctx buf len).
           \<exists>ctx' buf'. r = Inr (ctx', buf')
             \<and> length (Iv ctx') = AES_BLOCKLEN
             \<and> be_val (Iv ctx') = (be_val (Iv ctx) + (unat len + 15) div 16) mod 2 ^ 128
             \<and> (len = 0 \<longrightarrow> Iv ctx' = Iv ctx)"
proof -
  have iv: "length (Iv ctx) = AES_BLOCKLEN" using assms(3) by (simp add: valid_call_def)
  show ?thesis
    unfolding run_strategies_result [OF assms(1,2,4)]
    using final_counter_val [OF iv, of len] iv by simp
qed

theorem counter_advances_by_blocks_witness:
  "(0::nat) < 4 \<and> (4::nat) \<le> MAX_THREADS \<and> valid_call test_ctx test_buf 17
   \<and> fs_static_ok test_static
   \<and> be_val (Iv (fst (AES_CTR_xcrypt_buffer_openmp test_cipher 4 test_ctx test_buf 17)))
       = (be_val (Iv test_ctx) + (unat (17 :: size_t) + 15) div 16) mod 2 ^ 128"
proof -
  have h1: "(0::nat) < 4" by simp
  have h2: "(4::nat) \<le> MAX_THREADS" by (simp add: MAX_THREADS_def)
  have h3: "valid_call test_ctx test_buf 17"
    by (simp add: valid_call_def test_ctx_def test_iv_def test_buf_def AES_BLOCKLEN_def)
  have h4: "fs_static_ok test_static"
    by (simp add: fs_static_ok_def test_static_def MAX_THREADS_def)
  have "Inr (AES_CTR_xcrypt_buffer_openmp test_cipher 4 test_ctx test_buf 17)
      \<in> set (run_strategies test_cipher 4 test_static test_ctx test_buf 17)"
    by (simp add: run_strategies_def)
  with counter_advances_by_blocks [OF h1 h2 h3 h4, of test_cipher]
  have "be_val (Iv (fst (AES_CTR_xcrypt_buffer_openmp test_cipher 4 test_ctx test_buf 17)))
       = (be_val (Iv test_ctx) + (unat (17 :: size_t) + 15) div 16) mod 2 ^ 128"
    by fastforce
  with h1 h2 h3 h4 show ?thesis by (intro conjI)
qed

lemma ctr_xor_tail_byte:
  assumes "unat len \<le> length buf" "i < unat len mod 16"
  shows "ctr_xor cipher rk iv buf (unat len) ! (16 * (unat len div 16) + i)
       = buf ! (16 * (unat len div 16) + i) XOR cipher rk (IncrementIvBy iv (len div 16)) ! i"
proof -
  let ?n = "unat len div 16"
  have "16 * ?n + unat len mod 16 = unat len" by simp
  then have lt: "16 * ?n + i < unat len" using assms(2) by linarith
  then have in_buf: "16 * ?n + i < length buf" using assms(1) by simp
  have i16: "i < 16" using assms(2) by simp
  then have "(16 * ?n + i) div 16 = ?n" "(16 * ?n + i) mod 16 = i" by simp_all
  then show ?thesis
    using lt by (simp add: nth_ctr_xor [OF in_buf] ctr_keystream_def of_nat_num_blocks)
qed

lemma whole_blocks_cover: "(len :: size_t) mod 16 = 0 \<Longrightarrow> 16 * (unat len div 16) = unat len"
  by (simp add: remainder_zero_iff mod_eq_0_iff_dvd)

text \<open>
  C4. On a valid call whose length leaves a remainder \<open>r\<close> of bytes after the whole blocks,
  each transform XORs the first \<open>r\<close> bytes of the keystream block of the counter
  \<open>initial counter + num_blocks\<close> into the tail of the buffer, touches nothing behind the
  tail, and leaves the counter one block further; with no remainder the counter stays at
  \<open>initial counter + num_blocks\<close> and nothing behind the whole blocks is touched.
\<close>

theorem remainder_finisher:
  assumes "0 < nthreads" and "nthreads \<le> MAX_THREADS"
    and "valid_call ctx buf len" and "fs_static_ok g"
  shows "\<forall>r \<in> set (run_strategies cipher nthreads g ctx buf len).
           \<exists>ctx' buf'. r = Inr (ctx', buf')
             \<and> (let n = unat len div 16;
                     counter = IncrementIvBy (Iv ctx) (len div 16);
                     keystream = cipher (RoundKey ctx) counter
                 in be_val counter = (be_val (Iv ctx) + n) mod 2 ^ 128
                  \<and> (if unat len mod 16 \<noteq> 0
                      then (\<forall>i < unat len mod 16.
                              buf' ! (16 * n + i) = buf ! (16 * n + i) XOR keystream ! i)
                         \<and> (\<forall>i. unat len \<le> i \<and> i < length buf \<longrightarrow> buf' ! i = buf ! i)
                         \<and> Iv ctx' = IncrementIvBy counter 1
                         \<and> be_val (Iv ctx') = (be_val counter + 1) mod 2 ^ 128
                      else (\<forall>i. 16 * n \<le> i \<and> i < length buf \<longrightarrow> buf' ! i = buf ! i)
                         \<and> Iv ctx' = counter))"
proof -
  have iv: "length (Iv ctx) = AES_BLOCKLEN" and len: "unat len \<le> length buf"
    using assms(3) by (simp_all add: valid_call_def)
  let ?c = "IncrementIvBy (Iv ctx) (len div 16)"
  have c: "be_val ?c = (be_val (Iv ctx) + unat len div 16) mod 2 ^ 128"
    using iv by (simp only: be_val_IncrementIvBy unat_num_blocks)
  have c1: "be_val (IncrementIvBy ?c 1) = (be_val ?c + 1) mod 2 ^ 128"
    using iv by (simp only: be_val_IncrementIvBy IncrementIvBy_length unat_1)
  have behind: "ctr_xor cipher (RoundKey ctx) (Iv ctx) buf (unat len) ! i = buf ! i"
    if "unat len \<le> i" "i < length buf" for i
    using that by (simp add: nth_ctr_xor)
  show ?thesis
  proof (cases "len mod 16 = 0")
    case True
    then have r: "unat len mod 16 = 0" by (simp add: remainder_zero_iff)
    show ?thesis
      unfolding run_strategies_result [OF assms(1,2,4)] Let_def
      using True r c behind whole_blocks_cover [OF True] by simp
  next
    case False
    then have r: "unat len mod 16 \<noteq> 0" by (simp add: remainder_zero_iff)
    show ?thesis
      unfolding run_strategies_result [OF assms(1,2,4)] Let_def
      using False r c c1 behind ctr_xor_tail_byte [OF len, of _ cipher "RoundKey ctx" "Iv ctx"]
      by simp
  qed
qed

theorem remainder_finisher_witness:
  "(0::nat) < 4 \<and> (4::nat) \<le> MAX_THREADS \<and> valid_call test_ctx test_buf 17
   \<and> fs_static_ok test_static
   \<and> snd (AES_CTR_xcrypt_buffer_openmp_shared_ctx test_cipher 4 test_ctx test_buf 17) ! 16
       = test_buf ! 16 XOR test_cipher (RoundKey test_ctx) (IncrementIvBy (Iv test_ctx) 1) ! 0
   \<and> Iv (fst (AES_CTR_xcrypt_buffer_openmp_shared_ctx test_cipher 4 test_ctx test_buf 17))
       = IncrementIvBy (IncrementIvBy (Iv test_ctx) 1) 1"
proof -
  have h1: "(0::nat) < 4" by simp
  have h2: "(4::nat) \<le> MAX_THREADS" by (simp add: MAX_THREADS_def)
  have h3: "valid_call test_ctx test_buf 17"
    by (simp add: valid_call_def test_ctx_def test_iv_def test_buf_def AES_BLOCKLEN_def)
  have h4: "fs_static_ok test_static"
    by (simp add: fs_static_ok_def test_static_def MAX_THREADS_def)
  have "Inr (AES_CTR_xcrypt_buffer_openmp_shared_ctx test_cipher 4 test_ctx test_buf 17)
      \<in> set (run_strategies test_cipher 4 test_static test_ctx test_buf 17)"
    by (simp add: run_strategies_def)
  with remainder_finisher [OF h1 h2 h3 h4, of test_cipher]
  have "snd (AES_CTR_xcrypt_buffer_openmp_shared_ctx test_cipher 4 test_ctx test_buf 17) ! 16
       = test_buf ! 16 XOR test_cipher (RoundKey test_ctx) (IncrementIvBy (Iv test_ctx) 1) ! 0
     \<and> Iv (fst (AES_CTR_xcrypt_buffer_openmp_shared_ctx test_cipher 4 test_ctx test_buf 17))
       = IncrementIvBy (IncrementIvBy (Iv test_ctx) 1) 1"
    by (fastforce simp: Let_def)
  with h1 h2 h3 h4 show ?thesis by (intro conjI) simp_all
qed

lemma ctr_xor_twice: "ctr_xor cipher rk iv (ctr_xor cipher rk iv buf n) n = buf"
proof (rule nth_equalityI)
  show "length (ctr_xor cipher rk iv (ctr_xor cipher rk iv buf n) n) = length buf" by simp
  fix i
  assume "i < length (ctr_xor cipher rk iv (ctr_xor cipher rk iv buf n) n)"
  then have i: "i < length buf" by simp
  then have i': "i < length (ctr_xor cipher rk iv buf n)" by simp
  show "ctr_xor cipher rk iv (ctr_xor cipher rk iv buf n) n ! i = buf ! i"
    by (simp add: nth_ctr_xor [OF i'] nth_ctr_xor [OF i] xor.assoc)
qed

text \<open>
  C5. Running any of the four transforms on a valid call and then any of them again, from
  the same key schedule and the same initial counter, on what the first left, gives back
  the original buffer, whichever strategies and team sizes the two runs use.
\<close>

theorem encrypt_then_decrypt:
  assumes "0 < nthreads" and "nthreads \<le> MAX_THREADS"
    and "0 < nthreads'" and "nthreads' \<le> MAX_THREADS"
    and "valid_call ctx buf len" and "fs_static_ok g" and "fs_static_ok g'"
  shows "\<forall>r \<in> set (run_strategies cipher nthreads g ctx buf len).
           \<exists>ctx1 buf1. r = Inr (ctx1, buf1)
             \<and> valid_call ctx buf1 len
             \<and> (\<forall>r' \<in> set (run_strategies cipher nthreads' g' ctx buf1 len).
                    \<exists>ctx2. r' = Inr (ctx2, buf))"
proof -
  have "valid_call ctx (ctr_xor cipher (RoundKey ctx) (Iv ctx) buf (unat len)) len"
    using assms(5) by (simp add: valid_call_def)
  then show ?thesis
    unfolding run_strategies_result [OF assms(1,2,6)] run_strategies_result [OF assms(3,4,7)]
    by (simp add: ctr_xor_twice)
qed

theorem encrypt_then_decrypt_witness:
  "(0::nat) < 8 \<and> (8::nat) \<le> MAX_THREADS \<and> (0::nat) < 2 \<and> (2::nat) \<le> MAX_THREADS
   \<and> valid_call test_ctx test_buf 35 \<and> fs_static_ok test_static
   \<and> snd (AES_CTR_xcrypt_buffer_openmp_nowait test_cipher 2 test_ctx
         (snd (AES_CTR_xcrypt_buffer_openmp test_cipher 8 test_ctx test_buf 35)) 35) = test_buf"
proof -
  have h1: "(0::nat) < 8" and h3: "(0::nat) < 2" by simp_all
  have h2: "(8::nat) \<le> MAX_THREADS" and h4: "(2::nat) \<le> MAX_THREADS"
    by (simp_all add: MAX_THREADS_def)
  have h5: "valid_call test_ctx test_buf 35"
    by (simp add: valid_call_def test_ctx_def test_iv_def test_buf_def AES_BLOCKLEN_def)
  have h6: "fs_static_ok test_static"
    by (simp add: fs_static_ok_def test_static_def MAX_THREADS_def)
  have run1: "Inr (AES_CTR_xcrypt_buffer_openmp test_cipher 8 test_ctx test_buf 35)
      \<in> set (run_strategies test_cipher 8 test_static test_ctx test_buf 35)"
    by (simp add: run_strategies_def)
  have run2: "Inr (AES_CTR_xcrypt_buffer_openmp_nowait test_cipher 2 test_ctx b 35)
      \<in> set (run_strategies test_cipher 2 test_static test_ctx b 35)" for b
    by (simp add: run_strategies_def)
  from encrypt_then_decrypt [OF h1 h2 h3 h4 h5 h6 h6, of test_cipher] run1
  obtain ctx1 buf1 where
    r1: "AES_CTR_xcrypt_buffer_openmp test_cipher 8 test_ctx test_buf 35 = (ctx1, buf1)"
    and undo: "\<forall>r' \<in> set (run_strategies test_cipher 2 test_static test_ctx buf1 35).
          \<exists>ctx2. r' = Inr (ctx2, test_buf)"
    by blast
  from undo run2 [of buf1]
  have "snd (AES_CTR_xcrypt_buffer_openmp_nowait test_cipher 2 test_ctx buf1 35) = test_buf"
    by fastforce
  with h1 h2 h3 h4 h5 h6 show ?thesis by (simp add: r1)
qed

text \<open>
  C9. Frame condition. On a valid call each transform leaves every byte of the buffer at an
  index from \<open>length\<close> on as it was, keeps the size of the buffer, and changes nothing of
  the context but its counter: the round key is the same.
\<close>

theorem frame_condition:
  assumes "0 < nthreads" and "nthreads \<le> MAX_THREADS"
    and "valid_call ctx buf len" and "fs_static_ok g"
  shows "\<forall>r \<in> set (run_strategies cipher nthreads g ctx buf len).
           \<exists>ctx' buf'. r = Inr (ctx', buf')
             \<and> RoundKey ctx' = RoundKey ctx
             \<and> ctx' = ctx\<lparr>Iv := Iv ctx'\<rparr>
             \<and> length buf' = length buf
             \<and> (\<forall>i. unat len \<le> i \<and> i < length buf \<longrightarrow> buf' ! i = buf ! i)"
  unfolding run_strategies_result [OF assms(1,2,4)]
  by (simp add: nth_ctr_xor)

theorem frame_condition_witness:
  "(0::nat) < 16 \<and> (16::nat) \<le> MAX_THREADS \<and> valid_call test_ctx test_buf 33
   \<and> fs_static_ok test_static
   \<and> RoundKey (fst (AES_CTR_xcrypt_buffer_openmp_nowait test_cipher 16 test_ctx test_buf 33))
       = RoundKey test_ctx
   \<and> snd (AES_CTR_xcrypt_buffer_openmp_nowait test_cipher 16 test_ctx test_buf 33) ! 33
       = test_buf ! 33"
proof -
  have h1: "(0::nat) < 16" by simp
  have h2: "(16::nat) \<le> MAX_THREADS" by (simp add: MAX_THREADS_def)
  have h3: "valid_call test_ctx test_buf 33"
    by (simp add: valid_call_def test_ctx_def test_iv_def test_buf_def AES_BLOCKLEN_def)
  have h4: "fs_static_ok test_static"
    by (simp add: fs_static_ok_def test_static_def MAX_THREADS_def)
  have in_buf: "unat (33 :: size_t) \<le> 33 \<and> 33 < length test_buf"
    by (simp add: test_buf_def)
  have "Inr (AES_CTR_xcrypt_buffer_openmp_nowait test_cipher 16 test_ctx test_buf 33)
      \<in> set (run_strategies test_cipher 16 test_static test_ctx test_buf 33)"
    by (simp add: run_strategies_def)
  with frame_condition [OF h1 h2 h3 h4, of test_cipher] in_buf
  have "RoundKey (fst (AES_CTR_xcrypt_buffer_openmp_nowait test_cipher 16 test_ctx test_buf 33))
       = RoundKey test_ctx
     \<and> snd (AES_CTR_xcrypt_buffer_openmp_nowait test_cipher 16 test_ctx test_buf 33) ! 33
       = test_buf ! 33"
    by fastforce
  with h1 h2 h3 h4 show ?thesis by (intro conjI) simp_all
qed

text \<open>
  C8. \<open>IncrementIvBy\<close> is additive on a 16-byte counter: adding \<open>k1\<close> and then \<open>k2\<close> is
  adding \<open>k1 + k2\<close>, as long as the sum is a \<open>size_t\<close> value; adding 0 changes nothing.
\<close>

theorem IncrementIvBy_additive:
  assumes "length iv = AES_BLOCKLEN" and "unat k1 + unat k2 < 2 ^ 64"
  shows "IncrementIvBy (IncrementIvBy iv k1) k2 = IncrementIvBy iv (k1 + k2)
       \<and> IncrementIvBy iv 0 = iv"
  using assms by (simp add: IncrementIvBy_add)

theorem IncrementIvBy_additive_witness:
  "length test_iv = AES_BLOCKLEN \<and> unat (0x10 :: size_t) + unat (0xFFFFFFFF :: size_t) < 2 ^ 64
   \<and> IncrementIvBy (IncrementIvBy test_iv 0x10) 0xFFFFFFFF = IncrementIvBy test_iv (0x10 + 0xFFFFFFFF)
   \<and> IncrementIvBy test_iv 0 = test_iv"
proof -
  have h1: "length test_iv = AES_BLOCKLEN" by (simp add: test_iv_def AES_BLOCKLEN_def)
  have h2: "unat (0x10 :: size_t) + unat (0xFFFFFFFF :: size_t) < 2 ^ 64" by simp
  show ?thesis
    using h1 h2 IncrementIvBy_additive [OF h1 h2] by (intro conjI) simp_all
qed

lemma chunk_start_Suc:
  "chunk_start n W (Suc t) = chunk_start n W t + n div W + (if t < n mod W then 1 else 0)"
  by (simp add: chunk_start_def min_def)

lemma chunk_start_le: "t \<le> t' \<Longrightarrow> chunk_start n W t \<le> chunk_start n W t'"
  by (rule lift_Suc_mono_le [of "chunk_start n W"]) (rule chunk_start_mono)

lemma chunk_find:
  "j < chunk_start n W k \<Longrightarrow> \<exists>t<k. chunk_start n W t \<le> j \<and> j < chunk_start n W (Suc t)"
proof (induction k)
  case 0
  then show ?case by simp
next
  case (Suc k)
  show ?case
  proof (cases "j < chunk_start n W k")
    case True
    with Suc.IH obtain t where "t < k" "chunk_start n W t \<le> j" "j < chunk_start n W (Suc t)"
      by blast
    then show ?thesis by (intro exI [of _ t]) simp
  next
    case False
    with Suc.prems show ?thesis by (intro exI [of _ k]) simp
  qed
qed

lemma chunk_unique:
  assumes "chunk_start n W t \<le> j" "j < chunk_start n W (Suc t)"
    and "chunk_start n W t' \<le> j" "j < chunk_start n W (Suc t')"
  shows "t = t'"
proof (rule ccontr)
  assume "t \<noteq> t'"
  then consider "Suc t \<le> t'" | "Suc t' \<le> t" by linarith
  then show False
  proof cases
    case 1
    from chunk_start_le [OF 1, of n W] assms(2,3) show False by simp
  next
    case 2
    from chunk_start_le [OF 2, of n W] assms(1,4) show False by simp
  qed
qed

lemma chunk_excess:
  assumes "n \<le> t" "t < W"
  shows "chunk_start n W (Suc t) = chunk_start n W t"
proof -
  have "n < W" using assms by simp
  then have "n div W = 0" "n mod W = n" by simp_all
  then show ?thesis using assms(1) by (simp add: chunk_start_Suc)
qed

lemma chunk_sizes:
  "chunk_start n W (Suc t) - chunk_start n W t \<le> Suc (chunk_start n W (Suc t') - chunk_start n W t')"
  by (simp add: chunk_start_Suc)

text \<open>
  C6. For every number of blocks and every team of at least one thread, the static
  partition gives each block index below \<open>n\<close> to exactly one thread: the ranges are
  intervals inside \<open>[0, n)\<close>, each starting where the one before ends, pairwise disjoint,
  their union is \<open>[0, n)\<close>, their sizes differ by at most one, and a thread whose
  identifier is not below \<open>n\<close> has an empty range and leaves the state as it is.
\<close>

theorem static_partition:
  assumes "0 < nthreads"
  shows "(\<forall>j < n. \<exists>!tid. tid < nthreads
             \<and> fst (static_chunk n nthreads tid) \<le> j \<and> j < snd (static_chunk n nthreads tid))
       \<and> (\<forall>tid < nthreads. fst (static_chunk n nthreads tid) \<le> snd (static_chunk n nthreads tid)
             \<and> snd (static_chunk n nthreads tid) \<le> n)
       \<and> fst (static_chunk n nthreads 0) = 0
       \<and> snd (static_chunk n nthreads (nthreads - 1)) = n
       \<and> (\<forall>tid. Suc tid < nthreads \<longrightarrow>
             snd (static_chunk n nthreads tid) = fst (static_chunk n nthreads (Suc tid)))
       \<and> (\<forall>t1 < nthreads. \<forall>t2 < nthreads. t1 \<noteq> t2 \<longrightarrow>
             {fst (static_chunk n nthreads t1) ..< snd (static_chunk n nthreads t1)}
               \<inter> {fst (static_chunk n nthreads t2) ..< snd (static_chunk n nthreads t2)} = {})
       \<and> (\<Union>tid < nthreads.
             {fst (static_chunk n nthreads tid) ..< snd (static_chunk n nthreads tid)}) = {0 ..< n}
       \<and> (\<forall>t1 < nthreads. \<forall>t2 < nthreads.
             snd (static_chunk n nthreads t1) - fst (static_chunk n nthreads t1)
               \<le> Suc (snd (static_chunk n nthreads t2) - fst (static_chunk n nthreads t2)))
       \<and> (\<forall>tid. n \<le> tid \<and> tid < nthreads \<longrightarrow>
             fst (static_chunk n nthreads tid) = snd (static_chunk n nthreads tid)
             \<and> omp_for_static nthreads tid n body st = st)"
proof -
  let ?cs = "chunk_start n nthreads"
  have total: "?cs nthreads = n" using assms by (rule chunk_start_end)
  have within: "?cs (Suc t) \<le> n" if "t < nthreads" for t
    using chunk_start_le [of "Suc t" nthreads n nthreads] that total by simp
  have owner: "\<exists>!tid. tid < nthreads \<and> ?cs tid \<le> j \<and> j < ?cs (Suc tid)" if "j < n" for j
  proof -
    from that total chunk_find [of j n nthreads nthreads]
    obtain t where t: "t < nthreads" "?cs t \<le> j" "j < ?cs (Suc t)" by auto
    show ?thesis
    proof (rule ex1I [of _ t])
      show "t < nthreads \<and> ?cs t \<le> j \<and> j < ?cs (Suc t)" using t by simp
    next
      fix t' assume "t' < nthreads \<and> ?cs t' \<le> j \<and> j < ?cs (Suc t')"
      then show "t' = t" using t chunk_unique [of n nthreads t' j t] by simp
    qed
  qed
  have disjoint: "{?cs t1 ..< ?cs (Suc t1)} \<inter> {?cs t2 ..< ?cs (Suc t2)} = {}" if "t1 \<noteq> t2" for t1 t2
  proof (rule ccontr)
    assume "{?cs t1 ..< ?cs (Suc t1)} \<inter> {?cs t2 ..< ?cs (Suc t2)} \<noteq> {}"
    then obtain j where "j \<in> {?cs t1 ..< ?cs (Suc t1)}" "j \<in> {?cs t2 ..< ?cs (Suc t2)}"
      by blast
    then have "?cs t1 \<le> j" "j < ?cs (Suc t1)" "?cs t2 \<le> j" "j < ?cs (Suc t2)"
      by simp_all
    then have "t1 = t2" by (rule chunk_unique)
    with that show False by simp
  qed
  have union: "(\<Union>tid < nthreads. {?cs tid ..< ?cs (Suc tid)}) = {0 ..< n}"
  proof (rule set_eqI)
    fix j
    show "j \<in> (\<Union>tid < nthreads. {?cs tid ..< ?cs (Suc tid)}) \<longleftrightarrow> j \<in> {0 ..< n}"
    proof
      assume "j \<in> (\<Union>tid < nthreads. {?cs tid ..< ?cs (Suc tid)})"
      then obtain t where "t < nthreads" "j < ?cs (Suc t)" by auto
      then show "j \<in> {0 ..< n}" using within [of t] by simp
    next
      assume "j \<in> {0 ..< n}"
      then have "j < n" by simp
      from owner [OF this] show "j \<in> (\<Union>tid < nthreads. {?cs tid ..< ?cs (Suc tid)})" by auto
    qed
  qed
  have last: "?cs (Suc (nthreads - 1)) = n" using assms total by simp
  have idle: "fold body (map of_nat [?cs tid ..< ?cs (Suc tid)]) st = st"
    if "n \<le> tid" "tid < nthreads" for tid
    using chunk_excess [OF that] by simp
  show ?thesis
    unfolding static_chunk_eq fst_conv snd_conv omp_for_static_def prod.case
  proof (intro conjI)
    show "\<forall>j<n. \<exists>!tid. tid < nthreads \<and> ?cs tid \<le> j \<and> j < ?cs (Suc tid)"
      using owner by blast
    show "\<forall>tid<nthreads. ?cs tid \<le> ?cs (Suc tid) \<and> ?cs (Suc tid) \<le> n"
      using within chunk_start_mono [of n nthreads] by blast
    show "?cs 0 = 0" by simp
    show "?cs (Suc (nthreads - 1)) = n" by (rule last)
    show "\<forall>tid. Suc tid < nthreads \<longrightarrow> ?cs (Suc tid) = ?cs (Suc tid)" by simp
    show "\<forall>t1<nthreads. \<forall>t2<nthreads. t1 \<noteq> t2 \<longrightarrow>
        {?cs t1 ..< ?cs (Suc t1)} \<inter> {?cs t2 ..< ?cs (Suc t2)} = {}"
      using disjoint by blast
    show "(\<Union>tid<nthreads. {?cs tid ..< ?cs (Suc tid)}) = {0 ..< n}" by (rule union)
    show "\<forall>t1<nthreads. \<forall>t2<nthreads.
        ?cs (Suc t1) - ?cs t1 \<le> Suc (?cs (Suc t2) - ?cs t2)"
      using chunk_sizes [of n nthreads] by blast
    show "\<forall>tid. n \<le> tid \<and> tid < nthreads \<longrightarrow>
        ?cs tid = ?cs (Suc tid) \<and> fold body (map of_nat [?cs tid ..< ?cs (Suc tid)]) st = st"
      using chunk_excess [of n _ nthreads] idle by simp
  qed
qed

theorem static_partition_witness:
  "(0::nat) < 4
   \<and> map (static_chunk 10 4) [0, 1, 2, 3] = [(0, 3), (3, 6), (6, 8), (8, 10)]
   \<and> (\<Union>tid < 4. {fst (static_chunk 10 4 tid) ..< snd (static_chunk 10 4 tid)}) = {0 ..< 10}"
proof -
  have h: "(0::nat) < 4" by simp
  have "map (static_chunk 10 4) [0, 1, 2, 3] = [(0, 3), (3, 6), (6, 8), (8, 10)]"
    by (simp add: static_chunk_def)
  moreover from static_partition [OF h, where n = 10 and body = "\<lambda>_ s. s" and st = "()"]
  have "(\<Union>tid < 4. {fst (static_chunk 10 4 tid) ..< snd (static_chunk 10 4 tid)}) = {0 ..< 10}"
    by (elim conjE)
  ultimately show ?thesis using h by (intro conjI)
qed

lemma fold_fault_returns:
  "(\<And>x st. x \<in> set xs \<Longrightarrow> \<exists>st'. f x st = Inr st') \<Longrightarrow> \<exists>st'. fold_fault f xs st = Inr st'"
proof (induction xs arbitrary: st)
  case Nil
  show ?case by simp
next
  case (Cons x xs)
  from Cons.prems [of x st] obtain st1 where st1: "f x st = Inr st1" by auto
  have "\<exists>st'. fold_fault f xs st1 = Inr st'"
    using Cons.prems by (intro Cons.IH) simp
  then show ?case by (simp add: st1)
qed

lemma false_sharing_block_returns:
  "tid < MAX_THREADS \<Longrightarrow> \<exists>st'. false_sharing_block cipher rk iv tid j st = Inr st'"
  by (cases st) (simp add: false_sharing_block_def Let_def)

lemma chunk_nonempty:
  assumes "t < W" "t < n"
  shows "chunk_start n W t < chunk_start n W (Suc t)"
proof (cases "W \<le> n")
  case True
  then have "0 < n div W" using assms(1) by (simp add: div_greater_zero_iff)
  then show ?thesis by (simp add: chunk_start_Suc)
next
  case False
  then have "n mod W = n" by simp
  then show ?thesis using assms(2) by (simp add: chunk_start_Suc)
qed

lemma false_sharing_thread_returns:
  assumes "tid < MAX_THREADS \<or> (n \<le> tid \<and> tid < W)"
  shows "\<exists>st'. omp_for_static_fault W tid n (false_sharing_block cipher rk iv tid) st = Inr st'"
proof (cases "tid < MAX_THREADS")
  case True
  show ?thesis
    unfolding omp_for_static_fault_def static_chunk_eq prod.case
    by (rule fold_fault_returns) (rule false_sharing_block_returns [OF True])
next
  case False
  with assms have "chunk_start n W (Suc tid) = chunk_start n W tid"
    by (intro chunk_excess) simp_all
  then show ?thesis
    by (simp add: omp_for_static_fault_def static_chunk_eq)
qed

lemma false_sharing_thread_faults:
  assumes "MAX_THREADS \<le> tid" "tid < W" "tid < n"
  shows "omp_for_static_fault W tid n (false_sharing_block cipher rk iv tid) st = Inl OutOfBounds"
proof -
  let ?s = "chunk_start n W tid"
  have "?s < chunk_start n W (Suc tid)" using assms(2,3) by (rule chunk_nonempty)
  then have "[?s ..< chunk_start n W (Suc tid)] = ?s # [Suc ?s ..< chunk_start n W (Suc tid)]"
    by (rule upt_conv_Cons)
  then show ?thesis
    by (simp add: omp_for_static_fault_def static_chunk_eq
        false_sharing_block_fault [OF assms(1)])
qed

lemma false_sharing_region_returns:
  assumes "W \<le> MAX_THREADS \<or> n \<le> MAX_THREADS"
  shows "\<exists>st'. omp_parallel_fault W (\<lambda>tid. omp_for_static_fault W tid n
            (false_sharing_block cipher rk iv tid)) st = Inr st'"
  unfolding omp_parallel_fault_def
proof (rule fold_fault_returns)
  fix tid st
  assume "tid \<in> set [0..<W]"
  then have "tid < MAX_THREADS \<or> (n \<le> tid \<and> tid < W)" using assms by auto
  then show "\<exists>st'. omp_for_static_fault W tid n (false_sharing_block cipher rk iv tid) st = Inr st'"
    by (rule false_sharing_thread_returns)
qed

lemma false_sharing_region_faults:
  assumes "MAX_THREADS < W" "MAX_THREADS < n"
  shows "omp_parallel_fault W (\<lambda>tid. omp_for_static_fault W tid n
            (false_sharing_block cipher rk iv tid)) st = Inl OutOfBounds"
proof -
  let ?region = "\<lambda>tid. omp_for_static_fault W tid n (false_sharing_block cipher rk iv tid)"
  have split: "[0..<W] = [0..<MAX_THREADS] @ MAX_THREADS # [Suc MAX_THREADS..<W]"
    using assms(1) upt_add_eq_append [of 0 MAX_THREADS "W - MAX_THREADS"]
    by (simp add: upt_conv_Cons)
  have "\<exists>st'. fold_fault ?region [0..<MAX_THREADS] st = Inr st'"
    by (rule fold_fault_returns) (rule false_sharing_thread_returns, simp)
  then obtain st1 where st1: "fold_fault ?region [0..<MAX_THREADS] st = Inr st1" by blast
  have "?region MAX_THREADS st1 = Inl OutOfBounds"
    using assms by (intro false_sharing_thread_faults) simp_all
  then show ?thesis
    unfolding omp_parallel_fault_def split fold_fault_append by (simp add: st1)
qed

text \<open>
  C10. In the false-sharing variant a team of at most \<open>MAX_THREADS\<close> threads never indexes
  the static arrays out of bounds: the call returns. The function has no test of its own:
  an iteration run by a thread whose identifier is \<open>MAX_THREADS\<close> or more is out of bounds,
  and the call is out of bounds exactly when both the team and the number of whole blocks
  exceed \<open>MAX_THREADS\<close>.
\<close>

theorem false_sharing_bounds:
  "(nthreads \<le> MAX_THREADS \<longrightarrow>
      (\<exists>r. AES_CTR_xcrypt_buffer_openmp_false_sharing cipher nthreads g ctx buf len = Inr r))
   \<and> (\<forall>thread_id. MAX_THREADS \<le> thread_id \<longrightarrow>
         false_sharing_block cipher (RoundKey ctx) (Iv ctx) thread_id block_idx st = Inl OutOfBounds)
   \<and> (AES_CTR_xcrypt_buffer_openmp_false_sharing cipher nthreads g ctx buf len = Inl OutOfBounds
        \<longleftrightarrow> MAX_THREADS < nthreads \<and> MAX_THREADS < unat len div 16)"
proof -
  let ?region = "omp_parallel_fault nthreads (\<lambda>tid. omp_for_static_fault nthreads tid
      (unat len div 16) (false_sharing_block cipher (RoundKey ctx) (Iv ctx) tid)) (g, buf)"
  have ret: "\<exists>r. AES_CTR_xcrypt_buffer_openmp_false_sharing cipher nthreads g ctx buf len = Inr r"
    if "nthreads \<le> MAX_THREADS \<or> unat len div 16 \<le> MAX_THREADS"
  proof -
    from false_sharing_region_returns [OF that]
    obtain st' where "?region = Inr st'" by blast
    then show ?thesis
      by (cases st')
        (simp add: AES_CTR_xcrypt_buffer_openmp_false_sharing_def unat_num_blocks Let_def)
  qed
  have fault: "AES_CTR_xcrypt_buffer_openmp_false_sharing cipher nthreads g ctx buf len
      = Inl OutOfBounds"
    if "MAX_THREADS < nthreads" "MAX_THREADS < unat len div 16"
    using false_sharing_region_faults [OF that, of cipher "RoundKey ctx" "Iv ctx" "(g, buf)"]
    by (simp add: AES_CTR_xcrypt_buffer_openmp_false_sharing_def unat_num_blocks Let_def)
  have iff: "AES_CTR_xcrypt_buffer_openmp_false_sharing cipher nthreads g ctx buf len
      = Inl OutOfBounds \<longleftrightarrow> MAX_THREADS < nthreads \<and> MAX_THREADS < unat len div 16"
  proof
    assume l: "AES_CTR_xcrypt_buffer_openmp_false_sharing cipher nthreads g ctx buf len
      = Inl OutOfBounds"
    show "MAX_THREADS < nthreads \<and> MAX_THREADS < unat len div 16"
    proof (rule ccontr)
      assume "\<not> (MAX_THREADS < nthreads \<and> MAX_THREADS < unat len div 16)"
      then have "nthreads \<le> MAX_THREADS \<or> unat len div 16 \<le> MAX_THREADS" by linarith
      from ret [OF this] l show False by simp
    qed
  next
    assume "MAX_THREADS < nthreads \<and> MAX_THREADS < unat len div 16"
    then show "AES_CTR_xcrypt_buffer_openmp_false_sharing cipher nthreads g ctx buf len
      = Inl OutOfBounds" using fault by simp
  qed
  show ?thesis
    using ret iff false_sharing_block_fault by (intro conjI allI impI) simp_all
qed

theorem false_sharing_bounds_witness:
  "(16::nat) \<le> MAX_THREADS
   \<and> (\<exists>r. AES_CTR_xcrypt_buffer_openmp_false_sharing test_cipher 16 test_static test_ctx
              test_buf 40 = Inr r)
   \<and> MAX_THREADS \<le> (256::nat)
   \<and> false_sharing_block test_cipher (RoundKey test_ctx) (Iv test_ctx) 256 0
        (test_static, test_buf) = Inl OutOfBounds
   \<and> AES_CTR_xcrypt_buffer_openmp_false_sharing test_cipher 257 test_static test_ctx
        (replicate 4112 0) 4112 = Inl OutOfBounds"
proof -
  have h1: "(16::nat) \<le> MAX_THREADS" and h2: "MAX_THREADS \<le> (256::nat)"
    by (simp_all add: MAX_THREADS_def)
  have h3: "MAX_THREADS < 257 \<and> MAX_THREADS < unat (4112 :: size_t) div 16"
    by (simp add: MAX_THREADS_def)
  from false_sharing_bounds [of 16 test_cipher test_static test_ctx test_buf 40 0
      "(test_static, test_buf)"] h1 h2
  have small: "(\<exists>r. AES_CTR_xcrypt_buffer_openmp_false_sharing test_cipher 16 test_static
        test_ctx test_buf 40 = Inr r)
      \<and> false_sharing_block test_cipher (RoundKey test_ctx) (Iv test_ctx) 256 0
        (test_static, test_buf) = Inl OutOfBounds"
    by blast
  from false_sharing_bounds [of 257 test_cipher test_static test_ctx "replicate 4112 0" 4112 0
      "(test_static, test_buf)"] h3
  have "AES_CTR_xcrypt_buffer_openmp_false_sharing test_cipher 257 test_static test_ctx
        (replicate 4112 0) 4112 = Inl OutOfBounds"
    by blast
  with h1 h2 small show ?thesis by (intro conjI) simp_all
qed

end
